theory Spec2Isabelle
  imports Main "HOL-Library.Word"
begin

section \<open>The data model of maze.cc\<close>

text \<open>
  The grid has the fixed size of the source, \<open>MAZE_WIDTH = MAZE_HEIGHT = 21\<close>.
  Coordinates are C++ \<open>int\<close>s; every coordinate the program computes is a grid index
  plus or minus at most 2, so no arithmetic on them can overflow and they are modelled
  as \<open>int\<close>.
\<close>

definition MAZE_WIDTH :: int where
  "MAZE_WIDTH = 21"

definition MAZE_HEIGHT :: int where
  "MAZE_HEIGHT = 21"

datatype CellType = WALL | PATH | PLAYER | TARGET

record Cell =
  cell_x :: int
  cell_y :: int
  type :: CellType
  visited :: bool

text \<open>\<open>Vector2i\<close> is a pair \<open>(x, y)\<close>; its \<open>operator==\<close> is equality of pairs.\<close>

type_synonym Vector2i = "int \<times> int"

text \<open>
  \<open>cells\<close> is a \<open>vector<vector<Cell>>\<close> that is sized once (21 rows of 21 cells) and
  never resized. It is modelled as a function from \<open>(x, y)\<close> to the cell \<open>cells[y][x]\<close>.
  Only the positions accepted by \<open>isValidPosition\<close> exist in the program: an access
  outside them is undefined behaviour in C++. The loops that run over all cells touch
  the valid positions only, and \<open>maze_ok\<close> below (kept by every operation) says that
  the positions the program indexes the grid with without a check are valid.
\<close>

type_synonym grid = "Vector2i \<Rightarrow> Cell"

definition isValidPosition :: "Vector2i \<Rightarrow> bool" where
  "isValidPosition p =
     (fst p \<ge> 0 \<and> fst p < MAZE_WIDTH \<and> snd p \<ge> 0 \<and> snd p < MAZE_HEIGHT)"

text \<open>All positions of the grid, row by row, as the nested loops visit them.\<close>

definition all_cells :: "Vector2i list" where
  "all_cells = concat (map (\<lambda>y. map (\<lambda>x. (x, y)) [0 .. 20]) [0 .. 20])"

text \<open>
  The random engine \<open>std::mt19937\<close> is modelled by the infinite sequence of numbers it
  is still going to produce: any sequence at all, so that a theorem about every
  \<open>rng\<close> covers every seed. A \<open>uniform_int_distribution\<close> over \<open>[a, b]\<close> takes the next
  number into that range.
\<close>

type_synonym rng = "nat \<Rightarrow> nat"

definition uniform_int :: "rng \<Rightarrow> nat \<Rightarrow> nat \<Rightarrow> nat \<times> rng" where
  "uniform_int r a b = (a + r 0 mod (b - a + 1), \<lambda>k. r (Suc k))"

definition swap_at :: "nat \<Rightarrow> nat \<Rightarrow> 'a list \<Rightarrow> 'a list" where
  "swap_at i j xs = xs[i := xs ! j, j := xs ! i]"

text \<open>
  \<open>std::shuffle\<close>: the Fisher-Yates loop, which exchanges the first element with a
  uniformly drawn element of the range and goes on with the rest.
\<close>

function shuffle :: "rng \<Rightarrow> 'a list \<Rightarrow> 'a list \<times> rng" where
  "shuffle r xs =
     (if length xs \<le> 1 then (xs, r)
      else (case uniform_int r 0 (length xs - 1) of
              (i, r1) \<Rightarrow>
                (case shuffle r1 (tl (swap_at 0 i xs)) of
                   (zs, r2) \<Rightarrow> (hd (swap_at 0 i xs) # zs, r2))))"
  by pat_completeness auto
termination
  by (relation "measure (\<lambda>(r, xs). length xs)") (auto simp: swap_at_def)

record Maze =
  cells :: grid
  path :: "Vector2i list"
  movePath :: "Vector2i list"
  playerPos :: Vector2i
  targetPos :: Vector2i
  pathFound :: bool
  autoMoving :: bool
  currentMoveIndex :: int
  rng :: rng

definition directions :: "Vector2i list" where
  "directions = [(1, 0), (-1, 0), (0, 1), (0, -1)]"

section \<open>Maze generation\<close>

definition gen_dirs :: "Vector2i list" where
  "gen_dirs = [(2, 0), (-2, 0), (0, 2), (0, -2)]"

definition unvisited_candidates :: "grid \<Rightarrow> int \<Rightarrow> int \<Rightarrow> Vector2i list" where
  "unvisited_candidates cs x y =
     filter (\<lambda>n. fst n \<ge> 1 \<and> fst n < MAZE_WIDTH - 1 \<and>
                  snd n \<ge> 1 \<and> snd n < MAZE_HEIGHT - 1 \<and> \<not> visited (cs n))
       (map (\<lambda>dir. (x + fst dir, y + snd dir)) gen_dirs)"

definition getUnvisitedNeighbors :: "grid \<Rightarrow> rng \<Rightarrow> int \<Rightarrow> int \<Rightarrow> Vector2i list \<times> rng" where
  "getUnvisitedNeighbors cs r x y = shuffle r (unvisited_candidates cs x y)"

text \<open>The cells strictly inside the outer ring, and how many of them are unvisited.\<close>

definition interior_cells :: "Vector2i list" where
  "interior_cells = concat (map (\<lambda>y. map (\<lambda>x. (x, y)) [1 .. 19]) [1 .. 19])"

definition unvisited_interior :: "grid \<Rightarrow> nat" where
  "unvisited_interior cs = length (filter (\<lambda>p. \<not> visited (cs p)) interior_cells)"

text \<open>One carving step: the midpoint and the chosen room become PATH, the room visited.\<close>

definition carve :: "grid \<Rightarrow> Vector2i \<Rightarrow> Vector2i \<Rightarrow> grid" where
  "carve cs current nxt =
     (let midX = (fst current + fst nxt) div 2;
          midY = (snd current + snd nxt) div 2;
          cs1 = cs((midX, midY) := (cs (midX, midY))\<lparr>type := PATH\<rparr>);
          cs2 = cs1(nxt := (cs1 nxt)\<lparr>type := PATH\<rparr>)
      in cs2(nxt := (cs2 nxt)\<lparr>visited := True\<rparr>))"

lemma uniform_int_le: "a \<le> b \<Longrightarrow> fst (uniform_int r a b) \<le> b"
proof -
  assume "a \<le> b"
  have "r 0 mod (b - a + 1) < b - a + 1"
    by (rule mod_less_divisor) simp
  then have "r 0 mod (b - a + 1) \<le> b - a" by linarith
  with \<open>a \<le> b\<close> show ?thesis
    unfolding uniform_int_def fst_conv by linarith
qed

lemma set_swap_at: "i < length xs \<Longrightarrow> j < length xs \<Longrightarrow> set (swap_at i j xs) = set xs"
  by (simp add: swap_at_def set_swap)

lemma length_swap_at: "length (swap_at i j xs) = length xs"
  by (simp add: swap_at_def)

lemma set_shuffle: "set (fst (shuffle r xs)) = set xs"
proof (induction r xs rule: shuffle.induct)
  case (1 r xs)
  show ?case
  proof (cases "length xs \<le> 1")
    case True
    then show ?thesis by simp
  next
    case False
    obtain i r1 where u: "uniform_int r 0 (length xs - 1) = (i, r1)"
      by (cases "uniform_int r 0 (length xs - 1)")
    obtain zs r2 where s: "shuffle r1 (tl (swap_at 0 i xs)) = (zs, r2)"
      by (cases "shuffle r1 (tl (swap_at 0 i xs))")
    have "i \<le> length xs - 1"
      using uniform_int_le [of 0 "length xs - 1" r] u by simp
    with False have i: "i < length xs" by simp
    have ne: "swap_at 0 i xs \<noteq> []"
      using False length_swap_at [of 0 i xs] by auto
    have "set zs = set (tl (swap_at 0 i xs))"
      using "1.IH" [OF False u [symmetric]] s by simp
    then have "set (hd (swap_at 0 i xs) # zs) = set (swap_at 0 i xs)"
      using ne by (cases "swap_at 0 i xs") auto
    also have "\<dots> = set xs"
      using i False by (intro set_swap_at) auto
    finally show ?thesis
      using False u s by (simp del: shuffle.simps add: shuffle.simps [of r xs])
  qed
qed

lemma in_interior_cells:
  "p \<in> set interior_cells \<longleftrightarrow> 1 \<le> fst p \<and> fst p \<le> 19 \<and> 1 \<le> snd p \<and> snd p \<le> 19"
  by (cases p) (force simp: interior_cells_def)

lemma in_all_cells: "p \<in> set all_cells \<longleftrightarrow> isValidPosition p"
  by (cases p) (force simp: all_cells_def isValidPosition_def MAZE_WIDTH_def MAZE_HEIGHT_def)

lemma filter_length_less:
  assumes "x \<in> set xs" "P x" "\<not> Q x" "\<And>y. Q y \<Longrightarrow> P y"
  shows "length (filter Q xs) < length (filter P xs)"
  using assms(1)
proof (induction xs)
  case Nil
  then show ?case by simp
next
  case (Cons a xs)
  have le: "length (filter Q xs) \<le> length (filter P xs)"
  proof (induction xs)
    case Nil
    show ?case by simp
  next
    case (Cons b ys)
    then show ?case using assms(4) by auto
  qed
  show ?case
  proof (cases "a = x")
    case True
    then show ?thesis using le assms(2,3) by simp
  next
    case False
    with Cons have "length (filter Q xs) < length (filter P xs)" by simp
    then show ?thesis using assms(4) by auto
  qed
qed

lemma visited_carve: "visited (carve cs c n p) = (p = n \<or> visited (cs p))"
  by (simp add: carve_def Let_def)

lemma unvisited_interior_carve:
  assumes "n \<in> set interior_cells" "\<not> visited (cs n)"
  shows "unvisited_interior (carve cs c n) < unvisited_interior cs"
  unfolding unvisited_interior_def
  by (rule filter_length_less [OF assms(1)]) (use assms(2) in \<open>auto simp: visited_carve\<close>)

lemma candidates_interior:
  "n \<in> set (unvisited_candidates cs x y) \<Longrightarrow> n \<in> set interior_cells \<and> \<not> visited (cs n)"
  by (auto simp: unvisited_candidates_def in_interior_cells MAZE_WIDTH_def MAZE_HEIGHT_def)

lemma chosen_neighbor:
  assumes "getUnvisitedNeighbors cs r x y = (neighbors, r1)" "neighbors \<noteq> []"
    and "uniform_int r1 0 (length neighbors - 1) = (i, r2)"
  shows "neighbors ! i \<in> set (unvisited_candidates cs x y)"
proof -
  have "i \<le> length neighbors - 1"
    using uniform_int_le [of 0 "length neighbors - 1" r1] assms(3) by simp
  with assms(2) have "i < length neighbors" by (cases neighbors) auto
  then have "neighbors ! i \<in> set neighbors" by simp
  moreover have "set neighbors = set (unvisited_candidates cs x y)"
    using set_shuffle [of r "unvisited_candidates cs x y"] assms(1)
    by (simp add: getUnvisitedNeighbors_def)
  ultimately show ?thesis by simp
qed

text \<open>
  The \<open>while (!stack.empty())\<close> loop of \<open>generateMaze\<close>. The stack is a list with its
  top first. Every turn either visits one more interior cell or pops the stack, which
  is why the loop ends.
\<close>

function gen_loop :: "Vector2i list \<Rightarrow> grid \<Rightarrow> rng \<Rightarrow> grid \<times> rng" where
  "gen_loop [] cs r = (cs, r)"
| "gen_loop (current # stack) cs r =
     (case getUnvisitedNeighbors cs r (fst current) (snd current) of
        (neighbors, r1) \<Rightarrow>
          if neighbors \<noteq> [] then
            (case uniform_int r1 0 (length neighbors - 1) of
               (i, r2) \<Rightarrow>
                 gen_loop (neighbors ! i # current # stack)
                   (carve cs current (neighbors ! i)) r2)
          else gen_loop stack cs r1)"
  by pat_completeness auto
termination
proof (relation "(\<lambda>(st, cs, r). unvisited_interior cs) <*mlex*> measure (\<lambda>(st, cs, r). length st)",
    goal_cases)
  case 1
  show ?case by (simp add: wf_mlex)
next
  case (2 current stack cs r neighbors r1 i r2)
  have "neighbors ! i \<in> set (unvisited_candidates cs (fst current) (snd current))"
    using chosen_neighbor [of cs r "fst current" "snd current" neighbors r1 i r2] 2 by simp
  then show ?case
    using unvisited_interior_carve candidates_interior by (auto simp: mlex_prod_def)
next
  case (3 current stack cs r neighbors r1)
  then show ?case by (auto simp: mlex_prod_def)
qed

text \<open>The two nested \<open>for\<close> loops that write \<open>{x, y, WALL}\<close> (visited false) everywhere.\<close>

definition blank_cells :: "grid \<Rightarrow> grid" where
  "blank_cells cs =
     (\<lambda>p. if isValidPosition p
          then \<lparr>cell_x = fst p, cell_y = snd p, type = WALL, visited = False\<rparr>
          else cs p)"

definition generateMaze :: "Maze \<Rightarrow> Maze" where
  "generateMaze m =
     (let cs0 = blank_cells (cells m);
          cs1 = cs0((1, 1) := (cs0 (1, 1))\<lparr>type := PATH\<rparr>);
          cs2 = cs1((MAZE_WIDTH - 2, MAZE_HEIGHT - 2) :=
                  (cs1 (MAZE_WIDTH - 2, MAZE_HEIGHT - 2))\<lparr>type := PATH\<rparr>);
          cs3 = cs2((1, 1) := (cs2 (1, 1))\<lparr>visited := True\<rparr>)
      in (case gen_loop [(1, 1)] cs3 (rng m) of
            (cs, r) \<Rightarrow> m\<lparr>cells := cs, rng := r\<rparr>))"

section \<open>The session operations\<close>

text \<open>
  \<open>reset\<close>: the loop over all cells clears \<open>visited\<close> and turns a PLAYER cell into PATH;
  then the player is put at \<open>(1, 1)\<close> and the target at \<open>(19, 19)\<close>.
\<close>

definition reset :: "Maze \<Rightarrow> Maze" where
  "reset m =
     (let cs = (\<lambda>p. if isValidPosition p
                     then (let c = (cells m p)\<lparr>visited := False\<rparr>
                           in if type c = PLAYER then c\<lparr>type := PATH\<rparr> else c)
                     else cells m p);
          m1 = m\<lparr>cells := cs, playerPos := (1, 1)\<rparr>;
          m2 = m1\<lparr>cells := (cells m1)(playerPos m1 := (cells m1 (playerPos m1))\<lparr>type := PLAYER\<rparr>)\<rparr>;
          m3 = m2\<lparr>targetPos := (MAZE_WIDTH - 2, MAZE_HEIGHT - 2)\<rparr>;
          m4 = m3\<lparr>cells := (cells m3)(targetPos m3 := (cells m3 (targetPos m3))\<lparr>type := TARGET\<rparr>)\<rparr>
      in m4\<lparr>pathFound := False, autoMoving := False, movePath := [], currentMoveIndex := 0\<rparr>)"

definition generateNewMaze :: "Maze \<Rightarrow> Maze" where
  "generateNewMaze m = reset (generateMaze m)"

text \<open>
  The constructor: the engine is seeded (any sequence \<open>r\<close>), the grid is sized with
  value-initialised cells, then \<open>generateMaze\<close> and \<open>reset\<close> run.
\<close>

definition new_Maze :: "rng \<Rightarrow> Maze" where
  "new_Maze r =
     reset (generateMaze
       \<lparr>cells = (\<lambda>p. \<lparr>cell_x = 0, cell_y = 0, type = WALL, visited = False\<rparr>),
        path = [], movePath = [], playerPos = (0, 0), targetPos = (0, 0),
        pathFound = False, autoMoving = False, currentMoveIndex = 0, rng = r\<rparr>)"

definition movePlayer :: "int \<Rightarrow> int \<Rightarrow> Maze \<Rightarrow> bool \<times> Maze" where
  "movePlayer dx dy m =
     (let newX = fst (playerPos m) + dx;
          newY = snd (playerPos m) + dy
      in if isValidPosition (newX, newY) \<and> type (cells m (newX, newY)) \<noteq> WALL
         then (let m1 = m\<lparr>cells := (cells m)(playerPos m := (cells m (playerPos m))\<lparr>type := PATH\<rparr>)\<rparr>;
                   m2 = m1\<lparr>playerPos := (newX, newY)\<rparr>;
                   m3 = m2\<lparr>cells := (cells m2)((newX, newY) := (cells m2 (newX, newY))\<lparr>type := PLAYER\<rparr>)\<rparr>
               in (True, m3))
         else (False, m))"

section \<open>Breadth-first search\<close>

definition resetVisited :: "Maze \<Rightarrow> Maze" where
  "resetVisited m =
     m\<lparr>cells := (\<lambda>p. if isValidPosition p then (cells m p)\<lparr>visited := False\<rparr> else cells m p),
       path := [], pathFound := False\<rparr>"

text \<open>
  \<open>parentMap\<close> is an \<open>unordered_map<int, Vector2i>\<close>, a partial map. Its \<open>operator[]\<close>
  gives a default-constructed \<open>Vector2i(0, 0)\<close> for a key that is absent.
\<close>

type_synonym parent_map = "int \<rightharpoonup> Vector2i"

definition parent_of :: "parent_map \<Rightarrow> int \<Rightarrow> Vector2i" where
  "parent_of parentMap k = (case parentMap k of Some v \<Rightarrow> v | None \<Rightarrow> (0, 0))"

text \<open>
  The \<open>while\<close> loop of \<open>reconstructPath\<close> follows parents until it meets the player;
  nothing in the loop itself bounds it, so not returning is the value \<open>None\<close>.
\<close>

partial_function (option) reconstruct_loop ::
  "Vector2i \<Rightarrow> parent_map \<Rightarrow> Vector2i \<Rightarrow> Vector2i list \<Rightarrow> Vector2i list option" where
  "reconstruct_loop player parentMap current p =
     (if current = player then Some p
      else reconstruct_loop player parentMap
             (parent_of parentMap (snd current * MAZE_WIDTH + fst current)) (p @ [current]))"

declare reconstruct_loop.simps [code]

definition reconstructPath :: "Maze \<Rightarrow> parent_map \<Rightarrow> Maze option" where
  "reconstructPath m parentMap =
     (case reconstruct_loop (playerPos m) parentMap (targetPos m) (path m) of
        None \<Rightarrow> None
      | Some p \<Rightarrow> Some (m\<lparr>path := rev p\<rparr>))"

text \<open>The \<open>for (dir : directions)\<close> loop of \<open>findPathBFS\<close>, over the directions still to do.\<close>

fun expand :: "Vector2i \<Rightarrow> Vector2i list \<Rightarrow> grid \<times> Vector2i list \<times> parent_map \<Rightarrow>
    grid \<times> Vector2i list \<times> parent_map" where
  "expand current [] s = s"
| "expand current (dir # dirs) (cs, queue, parentMap) =
     (let newX = fst current + fst dir;
          newY = snd current + snd dir
      in if isValidPosition (newX, newY) \<and> \<not> visited (cs (newX, newY)) \<and>
            type (cs (newX, newY)) \<noteq> WALL
         then expand current dirs
                (cs((newX, newY) := (cs (newX, newY))\<lparr>visited := True\<rparr>),
                 queue @ [(newX, newY)],
                 parentMap(newY * MAZE_WIDTH + newX \<mapsto> current))
         else expand current dirs (cs, queue, parentMap))"

definition unvisited_cells :: "grid \<Rightarrow> nat" where
  "unvisited_cells cs = length (filter (\<lambda>p. \<not> visited (cs p)) all_cells)"

lemma unvisited_cells_mark:
  assumes "isValidPosition n" "\<not> visited (cs n)"
  shows "unvisited_cells (cs(n := (cs n)\<lparr>visited := True\<rparr>)) < unvisited_cells cs"
  unfolding unvisited_cells_def
  by (rule filter_length_less [of n]) (use assms in \<open>auto simp: in_all_cells split: if_splits\<close>)

lemma expand_measure:
  "expand c ds (cs, q, pm) = (cs', q', pm') \<Longrightarrow>
     2 * unvisited_cells cs' + length q' \<le> 2 * unvisited_cells cs + length q"
proof (induction ds arbitrary: cs q pm)
  case Nil
  then show ?case by simp
next
  case (Cons d ds)
  let ?n = "(fst c + fst d, snd c + snd d)"
  show ?case
  proof (cases "isValidPosition ?n \<and> \<not> visited (cs ?n) \<and> type (cs ?n) \<noteq> WALL")
    case True
    define cs1 where "cs1 = cs(?n := (cs ?n)\<lparr>visited := True\<rparr>)"
    have "expand c ds (cs1, q @ [?n],
        pm((snd c + snd d) * MAZE_WIDTH + (fst c + fst d) \<mapsto> c)) = (cs', q', pm')"
      using Cons.prems True by (simp add: Let_def cs1_def)
    from Cons.IH [OF this]
    have "2 * unvisited_cells cs' + length q' \<le> 2 * unvisited_cells cs1 + length q + 1"
      by simp
    moreover have "unvisited_cells cs1 < unvisited_cells cs"
      unfolding cs1_def using unvisited_cells_mark [of ?n cs] True by blast
    ultimately show ?thesis by linarith
  next
    case False
    then have "expand c ds (cs, q, pm) = (cs', q', pm')"
      using Cons.prems by (auto simp: Let_def)
    from Cons.IH [OF this] show ?thesis .
  qed
qed

text \<open>
  The \<open>while (!queue.empty())\<close> loop of \<open>findPathBFS\<close>. The queue is a list with its front
  first. Every turn takes one position from the queue and marks each position it adds
  as visited, which is why the loop ends.
\<close>

function bfs_loop :: "Maze \<Rightarrow> Vector2i list \<Rightarrow> parent_map \<Rightarrow> Maze option" where
  "bfs_loop m [] parentMap = Some m"
| "bfs_loop m (current # queue) parentMap =
     (if current = targetPos m then reconstructPath (m\<lparr>pathFound := True\<rparr>) parentMap
      else (case expand current directions (cells m, queue, parentMap) of
              (cs, q, pm) \<Rightarrow> bfs_loop (m\<lparr>cells := cs\<rparr>) q pm))"
  by pat_completeness auto
termination
proof (relation "measure (\<lambda>(m, q, pm). 2 * unvisited_cells (cells m) + length q)", goal_cases)
  case 1
  show ?case by simp
next
  case (2 m current queue parentMap cs qpm q pm)
  then have "expand current directions (cells m, queue, parentMap) = (cs, q, pm)" by simp
  from expand_measure [OF this] show ?case by simp
qed

definition findPathBFS :: "Maze \<Rightarrow> Maze option" where
  "findPathBFS m =
     (let m1 = resetVisited m;
          m2 = m1\<lparr>cells := (cells m1)(playerPos m1 := (cells m1 (playerPos m1))\<lparr>visited := True\<rparr>)\<rparr>
      in bfs_loop m2 [playerPos m2] Map.empty)"

section \<open>The animated solution\<close>

definition prepareAutoMove :: "Maze \<Rightarrow> Maze option" where
  "prepareAutoMove m =
     (case findPathBFS m of
        None \<Rightarrow> None
      | Some m1 \<Rightarrow>
          Some (if pathFound m1
                then m1\<lparr>autoMoving := True, currentMoveIndex := 0,
                        movePath := playerPos m1 # path m1\<rparr>
                else m1))"

text \<open>
  \<open>autoMoveStep\<close> compares \<open>currentMoveIndex\<close> (an \<open>int\<close>, converted) with
  \<open>movePath.size() - 1\<close> in \<open>size_t\<close>, 64 bits without sign: on an empty \<open>movePath\<close> the
  right-hand side wraps around to \<open>2^64 - 1\<close>. Reading \<open>movePath\<close> at an index that it
  does not have is undefined behaviour in C++; the model returns \<open>None\<close> there.
\<close>

definition autoMoveStep :: "Maze \<Rightarrow> (bool \<times> Maze) option" where
  "autoMoveStep m =
     (if \<not> autoMoving m \<or>
         (word_of_int (currentMoveIndex m) :: 64 word) \<ge> word_of_nat (length (movePath m)) - 1
      then Some (False, m\<lparr>autoMoving := False\<rparr>)
      else (let m1 = m\<lparr>currentMoveIndex := currentMoveIndex m + 1\<rparr>
            in if 0 \<le> currentMoveIndex m1 \<and> nat (currentMoveIndex m1) < length (movePath m1)
               then (let nextPos = movePath m1 ! nat (currentMoveIndex m1);
                         m2 = m1\<lparr>cells := (cells m1)(playerPos m1 := (cells m1 (playerPos m1))\<lparr>type := PATH\<rparr>)\<rparr>;
                         m3 = m2\<lparr>playerPos := nextPos\<rparr>;
                         m4 = m3\<lparr>cells := (cells m3)(playerPos m3 := (cells m3 (playerPos m3))\<lparr>type := PLAYER\<rparr>)\<rparr>
                     in Some (True, if playerPos m4 = targetPos m4 then m4\<lparr>autoMoving := False\<rparr> else m4))
               else None))"

text \<open>The input adapter for the arrow keys: it drops them while the animation runs.\<close>

datatype special_key = GLUT_KEY_UP | GLUT_KEY_DOWN | GLUT_KEY_LEFT | GLUT_KEY_RIGHT | OTHER_KEY

definition isAutoMoving :: "Maze \<Rightarrow> bool" where
  "isAutoMoving m = autoMoving m"

definition specialKeys :: "special_key \<Rightarrow> Maze \<Rightarrow> Maze" where
  "specialKeys k m =
     (if isAutoMoving m then m
      else (case k of
              GLUT_KEY_UP \<Rightarrow> snd (movePlayer 0 (-1) m)
            | GLUT_KEY_DOWN \<Rightarrow> snd (movePlayer 0 1 m)
            | GLUT_KEY_LEFT \<Rightarrow> snd (movePlayer (-1) 0 m)
            | GLUT_KEY_RIGHT \<Rightarrow> snd (movePlayer 1 0 m)
            | OTHER_KEY \<Rightarrow> m))"

text \<open>
  \<open>k\<close> calls of \<open>autoMoveStep\<close> in a row, as the timer makes them: the values returned,
  in order, and the state after the last call.
\<close>

fun autoMoveSteps :: "nat \<Rightarrow> Maze \<Rightarrow> (bool list \<times> Maze) option" where
  "autoMoveSteps 0 m = Some ([], m)"
| "autoMoveSteps (Suc k) m =
     (case autoMoveStep m of
        None \<Rightarrow> None
      | Some (b, m1) \<Rightarrow>
          (case autoMoveSteps k m1 of
             None \<Rightarrow> None
           | Some (bs, m2) \<Rightarrow> Some (b # bs, m2)))"

section \<open>Concrete states\<close>

text \<open>
  A small state to run the operations on: the player at \<open>(17, 19)\<close>, the target at
  \<open>(19, 19)\<close>, one PATH cell between them and walls everywhere else.
\<close>

definition example_cells :: grid where
  "example_cells =
     (\<lambda>p. \<lparr>cell_x = fst p, cell_y = snd p,
            type = (if p = (17, 19) then PLAYER else if p = (18, 19) then PATH
                    else if p = (19, 19) then TARGET else WALL),
            visited = False\<rparr>)"

definition example_maze :: Maze where
  "example_maze =
     \<lparr>cells = example_cells, path = [], movePath = [], playerPos = (17, 19),
      targetPos = (19, 19), pathFound = False, autoMoving = False,
      currentMoveIndex = 0, rng = (\<lambda>k. 0)\<rparr>"

text \<open>The same state after the A key: the animation is prepared and running.\<close>

definition animating_maze :: Maze where
  "animating_maze = the (prepareAutoMove example_maze)"

text \<open>
  The example state with the cell between player and target walled up, and with a stale
  solution left over from an earlier search.
\<close>

definition blocked_maze :: Maze where
  "blocked_maze =
     example_maze\<lparr>cells := (cells example_maze)((18, 19) := (cells example_maze (18, 19))\<lparr>type := WALL\<rparr>),
       path := [(18, 19), (19, 19)], pathFound := True\<rparr>"

text \<open>
  The example state again, with every cell marked visited and with a path, an animation
  path and an index left over from earlier operations.
\<close>

definition stale_maze :: Maze where
  "stale_maze =
     example_maze\<lparr>cells := (\<lambda>p. (example_cells p)\<lparr>visited := True\<rparr>),
       path := [(1, 1)], movePath := [(3, 3)], pathFound := True, currentMoveIndex := 5\<rparr>"

text \<open>
  A state with two shortest paths: the player at \<open>(1, 1)\<close>, the target at \<open>(2, 2)\<close>, and
  both \<open>(2, 1)\<close> and \<open>(1, 2)\<close> open.
\<close>

definition fork_cells :: grid where
  "fork_cells =
     (\<lambda>p. \<lparr>cell_x = fst p, cell_y = snd p,
            type = (if p = (1, 1) then PLAYER else if p = (2, 2) then TARGET
                    else if p = (2, 1) \<or> p = (1, 2) then PATH else WALL),
            visited = False\<rparr>)"

definition fork_maze :: Maze where
  "fork_maze = example_maze\<lparr>cells := fork_cells, playerPos := (1, 1), targetPos := (2, 2)\<rparr>"

text \<open>The example state after two steps to the right: the player stands on the target.\<close>

definition arrived_maze :: Maze where
  "arrived_maze = snd (movePlayer 1 0 (snd (movePlayer 1 0 example_maze)))"

section \<open>Facts about the operations\<close>

definition destination :: "Maze \<Rightarrow> int \<Rightarrow> int \<Rightarrow> Vector2i" where
  "destination m dx dy = (fst (playerPos m) + dx, snd (playerPos m) + dy)"

lemma movePlayer_eq:
  "movePlayer dx dy m =
     (if isValidPosition (destination m dx dy) \<and> type (cells m (destination m dx dy)) \<noteq> WALL
      then (True, m\<lparr>cells := (cells m)(playerPos m := (cells m (playerPos m))\<lparr>type := PATH\<rparr>,
                                  destination m dx dy := (cells m (destination m dx dy))\<lparr>type := PLAYER\<rparr>),
                    playerPos := destination m dx dy\<rparr>)
      else (False, m))"
  by (auto simp: movePlayer_def destination_def Let_def fun_eq_iff)

lemma destination_eq_iff: "destination m dx dy = playerPos m \<longleftrightarrow> (dx, dy) = (0, 0)"
  by (cases "playerPos m") (auto simp: destination_def)

lemma expand_type:
  "expand c ds (cs, q, pm) = (cs', q', pm') \<Longrightarrow> type (cs' p) = type (cs p)"
proof (induction ds arbitrary: cs q pm)
  case Nil
  then show ?case by simp
next
  case (Cons d ds)
  then show ?case
    by (fastforce simp: Let_def split: if_splits)
qed

lemma reconstructPath_frame:
  "reconstructPath m pm = Some m' \<Longrightarrow> \<exists>p. m' = m\<lparr>path := p\<rparr>"
  by (auto simp: reconstructPath_def split: option.splits)

lemma bfs_loop_frame:
  "bfs_loop m q pm = Some m' \<Longrightarrow>
     movePath m' = movePath m \<and> autoMoving m' = autoMoving m \<and>
     playerPos m' = playerPos m \<and> targetPos m' = targetPos m \<and>
     currentMoveIndex m' = currentMoveIndex m \<and> rng m' = rng m \<and>
     (\<forall>p. type (cells m' p) = type (cells m p))"
proof (induction m q pm rule: bfs_loop.induct)
  case (1 m parentMap)
  then show ?case by simp
next
  case (2 m current queue parentMap)
  show ?case
  proof (cases "current = targetPos m")
    case True
    with "2.prems" obtain p where "m' = m\<lparr>pathFound := True, path := p\<rparr>"
      using reconstructPath_frame [of "m\<lparr>pathFound := True\<rparr>" parentMap m'] by auto
    then show ?thesis by simp
  next
    case False
    obtain cs q pm where e: "expand current directions (cells m, queue, parentMap) = (cs, q, pm)"
      by (cases "expand current directions (cells m, queue, parentMap)")
    with False "2.prems" have "bfs_loop (m\<lparr>cells := cs\<rparr>) q pm = Some m'" by simp
    from "2.IH" [OF False e [symmetric] refl this] expand_type [OF e]
    show ?thesis by simp
  qed
qed

lemma findPathBFS_frame:
  "findPathBFS m = Some m' \<Longrightarrow>
     movePath m' = movePath m \<and> autoMoving m' = autoMoving m \<and>
     playerPos m' = playerPos m \<and> targetPos m' = targetPos m \<and>
     currentMoveIndex m' = currentMoveIndex m \<and> rng m' = rng m \<and>
     (\<forall>p. type (cells m' p) = type (cells m p))"
  unfolding findPathBFS_def Let_def
  by (drule bfs_loop_frame) (simp add: resetVisited_def)

lemma findPathBFS_same_pos:
  "playerPos m = targetPos m \<Longrightarrow>
     findPathBFS m = Some ((resetVisited m)\<lparr>cells := (cells (resetVisited m))(playerPos m :=
        (cells (resetVisited m) (playerPos m))\<lparr>visited := True\<rparr>), pathFound := True, path := []\<rparr>)"
  by (simp add: findPathBFS_def Let_def resetVisited_def reconstructPath_def reconstruct_loop.simps)

lemma example_prepared:
  "autoMoving animating_maze \<and> movePath animating_maze = [(17, 19), (18, 19), (19, 19)] \<and>
   path animating_maze = [(18, 19), (19, 19)] \<and> pathFound animating_maze \<and>
   playerPos animating_maze = (17, 19) \<and> targetPos animating_maze = (19, 19) \<and>
   currentMoveIndex animating_maze = 0"
  unfolding animating_maze_def by code_simp

section \<open>Paths in the grid and the correctness of the search\<close>

text \<open>
  A cell can be entered when it is a valid position whose kind is not WALL (the test of
  \<open>movePlayer\<close> and of \<open>findPathBFS\<close>). \<open>walk cs p qs\<close> says that \<open>qs\<close> is a sequence of
  moves from \<open>p\<close>, each to one of the four neighbours and each into such a cell; it ends
  at \<open>last (p # qs)\<close> and has \<open>length qs\<close> edges. The start cell itself is not examined,
  as in the source, where the player stands on it.
\<close>

definition walkable :: "grid \<Rightarrow> Vector2i \<Rightarrow> bool" where
  "walkable cs p = (isValidPosition p \<and> type (cs p) \<noteq> WALL)"

definition step :: "Vector2i \<Rightarrow> Vector2i \<Rightarrow> Vector2i" where
  "step p dir = (fst p + fst dir, snd p + snd dir)"

definition neighbours :: "Vector2i \<Rightarrow> Vector2i list" where
  "neighbours p = map (step p) directions"

fun walk :: "grid \<Rightarrow> Vector2i \<Rightarrow> Vector2i list \<Rightarrow> bool" where
  "walk cs p [] = True"
| "walk cs p (q # qs) = (q \<in> set (neighbours p) \<and> walkable cs q \<and> walk cs q qs)"

definition key :: "Vector2i \<Rightarrow> int" where
  "key p = snd p * MAZE_WIDTH + fst p"

definition seen :: "grid \<Rightarrow> Vector2i \<Rightarrow> Vector2i \<Rightarrow> bool" where
  "seen cs src p = (visited (cs p) \<and> (isValidPosition p \<or> p = src))"

definition mark :: "grid \<Rightarrow> Vector2i \<Rightarrow> grid" where
  "mark cs n = cs(n := (cs n)\<lparr>visited := True\<rparr>)"

lemma key_coords:
  assumes "isValidPosition p"
  shows "fst p = key p mod 21" "snd p = key p div 21"
  using assms by (simp_all add: key_def isValidPosition_def MAZE_WIDTH_def MAZE_HEIGHT_def)

lemma key_inj: "isValidPosition p \<Longrightarrow> isValidPosition q \<Longrightarrow> key p = key q \<Longrightarrow> p = q"
  using key_coords [of p] key_coords [of q] by (simp add: prod_eq_iff)

lemma walkable_mark [simp]: "walkable (mark cs n) p = walkable cs p"
  by (simp add: walkable_def mark_def)

lemma walk_cong: "(\<And>p. type (cs' p) = type (cs p)) \<Longrightarrow> walk cs' a qs = walk cs a qs"
  by (induction qs arbitrary: a) (auto simp: walkable_def)

lemma walk_mark [simp]: "walk (mark cs n) a qs = walk cs a qs"
  by (rule walk_cong) (simp add: mark_def)

lemma seen_mark: "isValidPosition n \<Longrightarrow> seen (mark cs n) src p = (p = n \<or> seen cs src p)"
  by (auto simp: seen_def mark_def)

lemma walk_append: "walk cs a (xs @ ys) = (walk cs a xs \<and> walk cs (last (a # xs)) ys)"
  by (induction xs arbitrary: a) auto

lemma walk_first_outside:
  "walk cs a qs \<Longrightarrow> S a \<Longrightarrow> \<not> S (last (a # qs)) \<Longrightarrow>
     \<exists>xs b ys. qs = xs @ b # ys \<and> walk cs a xs \<and> S (last (a # xs)) \<and> \<not> S b \<and>
       b \<in> set (neighbours (last (a # xs))) \<and> walkable cs b"
proof (induction qs arbitrary: a)
  case Nil
  then show ?case by simp
next
  case (Cons q qs)
  show ?case
  proof (cases "S q")
    case True
    from Cons.prems have "walk cs q qs" "\<not> S (last (q # qs))" by auto
    from Cons.IH [OF this(1) True this(2)] obtain xs b ys where
      h: "qs = xs @ b # ys" "walk cs q xs" "S (last (q # xs))" "\<not> S b"
        "b \<in> set (neighbours (last (q # xs)))" "walkable cs b" by blast
    have "q # qs = (q # xs) @ b # ys" using h(1) by simp
    moreover have "walk cs a (q # xs)" using Cons.prems(1) h(2) by simp
    moreover have "last (a # q # xs) = last (q # xs)" by simp
    ultimately show ?thesis using h(3-6) by metis
  next
    case False
    have "q # qs = [] @ q # qs" by simp
    moreover have "walk cs a []" by simp
    moreover have "S (last (a # []))" using Cons.prems(2) by simp
    moreover have "q \<in> set (neighbours (last (a # [])))" "walkable cs q"
      using Cons.prems(1) by auto
    ultimately show ?thesis using False by blast
  qed
qed

definition bfs_inv :: "Vector2i \<Rightarrow> Vector2i \<Rightarrow> grid \<Rightarrow> parent_map \<Rightarrow> (Vector2i \<Rightarrow> nat) \<Rightarrow>
    Vector2i list \<Rightarrow> Vector2i list \<Rightarrow> bool" where
  "bfs_inv src tgt cs pm d qa ds =
     (seen cs src src \<and> d src = 0 \<and>
      (\<forall>x\<in>set qa. seen cs src x) \<and> distinct qa \<and>
      (\<forall>p. seen cs src p \<and> p \<noteq> src \<longrightarrow>
         (\<exists>u. pm (key p) = Some u \<and> seen cs src u \<and> p \<in> set (neighbours u) \<and>
              walkable cs p \<and> d p = Suc (d u))) \<and>
      sorted (map d qa) \<and> (\<forall>x\<in>set qa. d x \<le> Suc (d (hd qa))) \<and>
      (\<forall>p. seen cs src p \<and> p \<notin> set qa \<longrightarrow>
         (\<forall>n\<in>set (neighbours p). walkable cs n \<longrightarrow> seen cs src n)) \<and>
      (\<forall>dir\<in>set directions. dir \<notin> set ds \<longrightarrow> qa \<noteq> [] \<longrightarrow>
         walkable cs (step (hd qa) dir) \<longrightarrow> seen cs src (step (hd qa) dir)) \<and>
      set ds \<subseteq> set directions \<and>
      (\<forall>qs. walk cs src qs \<and> seen cs src (last (src # qs)) \<longrightarrow> d (last (src # qs)) \<le> length qs) \<and>
      (\<forall>p. seen cs src p \<and> p \<notin> set qa \<longrightarrow> p \<noteq> tgt))"

lemma bfs_inv_skip:
  assumes inv: "bfs_inv src tgt cs pm d (u # q) (dir # ds)"
    and no: "\<not> (isValidPosition (step u dir) \<and> \<not> visited (cs (step u dir)) \<and> type (cs (step u dir)) \<noteq> WALL)"
  shows "bfs_inv src tgt cs pm d (u # q) ds"
proof -
  have "walkable cs (step u dir) \<longrightarrow> seen cs src (step u dir)"
    using no by (auto simp: walkable_def seen_def)
  then show ?thesis
    using inv unfolding bfs_inv_def by (auto simp del: walk.simps)
qed


lemma bfs_inv_push:
  assumes inv: "bfs_inv src tgt cs pm d (u # q) (dir # ds)"
    and n: "n = step u dir"
    and v: "isValidPosition n" and nv: "\<not> visited (cs n)" and nw: "type (cs n) \<noteq> WALL"
  shows "bfs_inv src tgt (mark cs n) (pm(key n \<mapsto> u)) (d(n := Suc (d u))) (u # q @ [n]) ds"
proof -
  let ?cs = "mark cs n" and ?d = "d(n := Suc (d u))" and ?pm = "pm(key n \<mapsto> u)"
  from inv have
    i1: "seen cs src src" "d src = 0" and
    i2: "\<forall>x\<in>set (u # q). seen cs src x" "distinct (u # q)" and
    i3: "\<forall>p. seen cs src p \<and> p \<noteq> src \<longrightarrow>
         (\<exists>w. pm (key p) = Some w \<and> seen cs src w \<and> p \<in> set (neighbours w) \<and>
              walkable cs p \<and> d p = Suc (d w))" and
    i4: "sorted (map d (u # q))" "\<forall>x\<in>set (u # q). d x \<le> Suc (d (hd (u # q)))" and
    i5: "\<forall>p. seen cs src p \<and> p \<notin> set (u # q) \<longrightarrow>
         (\<forall>m\<in>set (neighbours p). walkable cs m \<longrightarrow> seen cs src m)" and
    i6: "\<forall>e\<in>set directions. e \<notin> set (dir # ds) \<longrightarrow> u # q \<noteq> [] \<longrightarrow>
         walkable cs (step (hd (u # q)) e) \<longrightarrow> seen cs src (step (hd (u # q)) e)" and
    i7: "set (dir # ds) \<subseteq> set directions" and
    i8: "\<forall>qs. walk cs src qs \<and> seen cs src (last (src # qs)) \<longrightarrow> d (last (src # qs)) \<le> length qs" and
    i9: "\<forall>p. seen cs src p \<and> p \<notin> set (u # q) \<longrightarrow> p \<noteq> tgt"
    unfolding bfs_inv_def by blast+
  have ns: "\<not> seen cs src n" using nv by (simp add: seen_def)
  have sn: "\<And>p. seen ?cs src p = (p = n \<or> seen cs src p)" using v by (rule seen_mark)
  have n_src: "n \<noteq> src" using ns i1 by auto
  have n_q: "n \<notin> set (u # q)" using ns i2 by auto
  have dq: "\<And>x. seen cs src x \<Longrightarrow> ?d x = d x" using ns by auto
  have su: "seen cs src u" using i2 by simp
  have wn: "walkable cs n" using v nw by (simp add: walkable_def)
  have nu: "n \<in> set (neighbours u)" using n i7 by (auto simp: neighbours_def)
  have c1: "seen ?cs src src" "?d src = 0"
    using i1 n_src by (simp_all add: sn)
  have c2: "\<forall>x\<in>set (u # q @ [n]). seen ?cs src x" "distinct (u # q @ [n])"
    using i2 n_q by (auto simp: sn)
  have c3: "\<forall>p. seen ?cs src p \<and> p \<noteq> src \<longrightarrow>
         (\<exists>w. ?pm (key p) = Some w \<and> seen ?cs src w \<and> p \<in> set (neighbours w) \<and>
              walkable ?cs p \<and> ?d p = Suc (?d w))"
  proof (intro allI impI)
    fix p assume a: "seen ?cs src p \<and> p \<noteq> src"
    show "\<exists>w. ?pm (key p) = Some w \<and> seen ?cs src w \<and> p \<in> set (neighbours w) \<and>
              walkable ?cs p \<and> ?d p = Suc (?d w)"
    proof (cases "p = n")
      case True
      have "?pm (key p) = Some u" using True by simp
      moreover have "seen ?cs src u" using su by (simp add: sn)
      moreover have "?d p = Suc (?d u)" using True su ns by auto
      ultimately show ?thesis using True nu wn by auto
    next
      case False
      with a have sp: "seen cs src p" by (simp add: sn)
      with a i3 obtain w where w: "pm (key p) = Some w" "seen cs src w" "p \<in> set (neighbours w)"
        "walkable cs p" "d p = Suc (d w)" by blast
      have "key p \<noteq> key n"
        using key_inj [of p n] w(4) v False by (auto simp: walkable_def)
      then have "?pm (key p) = Some w" using w(1) by simp
      moreover have "?d p = Suc (?d w)" using dq [OF sp] dq [OF w(2)] w(5) by simp
      ultimately show ?thesis using w(2,3,4) by (auto simp: sn)
    qed
  qed
  have le: "\<forall>x\<in>set (u # q). d x \<le> Suc (d u)" using i4(2) by simp
  have md: "map ?d (u # q) = map d (u # q)"
    using n_q by (auto simp del: fun_upd_apply simp: fun_upd_apply)
  have c4: "sorted (map ?d (u # q @ [n]))" "\<forall>x\<in>set (u # q @ [n]). ?d x \<le> Suc (?d (hd (u # q @ [n])))"
  proof -
    have "map ?d (u # q @ [n]) = map ?d (u # q) @ [?d n]" by simp
    also have "\<dots> = map d (u # q) @ [Suc (d u)]" by (simp only: md fun_upd_same)
    finally have e: "map ?d (u # q @ [n]) = map d (u # q) @ [Suc (d u)]" .
    have "sorted (map d (u # q) @ [Suc (d u)])"
      using i4(1) le by (simp add: sorted_append)
    then show "sorted (map ?d (u # q @ [n]))" by (simp only: e)
    show "\<forall>x\<in>set (u # q @ [n]). ?d x \<le> Suc (?d (hd (u # q @ [n])))"
      using le n_q by auto
  qed
  have c5: "\<forall>p. seen ?cs src p \<and> p \<notin> set (u # q @ [n]) \<longrightarrow>
         (\<forall>m\<in>set (neighbours p). walkable ?cs m \<longrightarrow> seen ?cs src m)"
    using i5 by (auto simp: sn)
  have c6: "\<forall>e\<in>set directions. e \<notin> set ds \<longrightarrow> u # q @ [n] \<noteq> [] \<longrightarrow>
         walkable ?cs (step (hd (u # q @ [n])) e) \<longrightarrow> seen ?cs src (step (hd (u # q @ [n])) e)"
  proof (intro ballI impI)
    fix e assume e: "e \<in> set directions" "e \<notin> set ds" "walkable ?cs (step (hd (u # q @ [n])) e)"
    show "seen ?cs src (step (hd (u # q @ [n])) e)"
    proof (cases "e = dir")
      case True
      then have "step (hd (u # q @ [n])) e = n" using n by simp
      then show ?thesis by (simp add: sn)
    next
      case False
      with e i6 have "seen cs src (step u e)" by simp
      then show ?thesis by (simp add: sn)
    qed
  qed
  have c7: "set ds \<subseteq> set directions" using i7 by simp
  have c8: "\<forall>qs. walk ?cs src qs \<and> seen ?cs src (last (src # qs)) \<longrightarrow> ?d (last (src # qs)) \<le> length qs"
  proof (intro allI impI)
    fix qs assume a: "walk ?cs src qs \<and> seen ?cs src (last (src # qs))"
    then have w: "walk cs src qs" by simp
    show "?d (last (src # qs)) \<le> length qs"
    proof (cases "last (src # qs) = n")
      case False
      with a have "seen cs src (last (src # qs))" by (simp only: sn) simp
      with w i8 have "d (last (src # qs)) \<le> length qs" by blast
      with False show ?thesis by (simp only: fun_upd_apply if_False)
    next
      case True
      have "\<not> seen cs src (last (src # qs))" unfolding True by (rule ns)
      from walk_first_outside [of cs src qs "seen cs src", OF w i1(1) this]
      obtain xs b ys where h: "qs = xs @ b # ys" "walk cs src xs" "seen cs src (last (src # xs))"
        "\<not> seen cs src b" "b \<in> set (neighbours (last (src # xs)))" "walkable cs b" by blast
      have "last (src # xs) \<in> set (u # q)" using i5 h(3-6) by blast
      then have "d u \<le> d (last (src # xs))" using i4(1) by auto
      moreover have "d (last (src # xs)) \<le> length xs" using i8 h(2,3) by blast
      moreover have "length xs < length qs" using h(1) by simp
      ultimately show ?thesis using True by (simp only: fun_upd_apply) simp
    qed
  qed
  have c9: "\<forall>p. seen ?cs src p \<and> p \<notin> set (u # q @ [n]) \<longrightarrow> p \<noteq> tgt"
    using i9 by (auto simp: sn)
  show ?thesis
    unfolding bfs_inv_def using c1 c2 c3 c4 c5 c6 c7 c8 c9 by blast
qed


lemma expand_Cons:
  "expand u (dir # ds) (cs, q, pm) =
     (if isValidPosition (step u dir) \<and> \<not> visited (cs (step u dir)) \<and> type (cs (step u dir)) \<noteq> WALL
      then expand u ds (mark cs (step u dir), q @ [step u dir], pm(key (step u dir) \<mapsto> u))
      else expand u ds (cs, q, pm))"
  by (simp add: step_def mark_def key_def Let_def)

lemma expand_inv:
  "bfs_inv src tgt cs pm d (u # q) ds \<Longrightarrow> expand u ds (cs, q, pm) = (cs', q', pm') \<Longrightarrow>
     \<exists>d'. bfs_inv src tgt cs' pm' d' (u # q') []"
proof (induction ds arbitrary: cs q pm d)
  case Nil
  then show ?case by auto
next
  case (Cons dir ds)
  let ?n = "step u dir"
  show ?case
  proof (cases "isValidPosition ?n \<and> \<not> visited (cs ?n) \<and> type (cs ?n) \<noteq> WALL")
    case True
    then have e: "expand u ds (mark cs ?n, q @ [?n], pm(key ?n \<mapsto> u)) = (cs', q', pm')"
      using Cons.prems(2) by (simp add: expand_Cons del: expand.simps)
    have "bfs_inv src tgt (mark cs ?n) (pm(key ?n \<mapsto> u)) (d(?n := Suc (d u))) (u # q @ [?n]) ds"
      using bfs_inv_push [OF Cons.prems(1) refl] True by blast
    from Cons.IH [OF this e] show ?thesis .
  next
    case False
    then have e: "expand u ds (cs, q, pm) = (cs', q', pm')"
      using Cons.prems(2) by (auto simp add: expand_Cons simp del: expand.simps split: if_splits)
    have "bfs_inv src tgt cs pm d (u # q) ds"
      using bfs_inv_skip [OF Cons.prems(1) False] .
    from Cons.IH [OF this e] show ?thesis .
  qed
qed

lemma bfs_inv_pop:
  assumes inv: "bfs_inv src tgt cs pm d (u # q) []" and ut: "u \<noteq> tgt"
  shows "bfs_inv src tgt cs pm d q directions"
proof -
  from inv have
    i1: "seen cs src src" "d src = 0" and
    i2: "\<forall>x\<in>set (u # q). seen cs src x" "distinct (u # q)" and
    i3: "\<forall>p. seen cs src p \<and> p \<noteq> src \<longrightarrow>
         (\<exists>w. pm (key p) = Some w \<and> seen cs src w \<and> p \<in> set (neighbours w) \<and>
              walkable cs p \<and> d p = Suc (d w))" and
    i4: "sorted (map d (u # q))" "\<forall>x\<in>set (u # q). d x \<le> Suc (d (hd (u # q)))" and
    i5: "\<forall>p. seen cs src p \<and> p \<notin> set (u # q) \<longrightarrow>
         (\<forall>m\<in>set (neighbours p). walkable cs m \<longrightarrow> seen cs src m)" and
    i6: "\<forall>e\<in>set directions. e \<notin> set [] \<longrightarrow> u # q \<noteq> [] \<longrightarrow>
         walkable cs (step (hd (u # q)) e) \<longrightarrow> seen cs src (step (hd (u # q)) e)" and
    i8: "\<forall>qs. walk cs src qs \<and> seen cs src (last (src # qs)) \<longrightarrow> d (last (src # qs)) \<le> length qs" and
    i9: "\<forall>p. seen cs src p \<and> p \<notin> set (u # q) \<longrightarrow> p \<noteq> tgt"
    unfolding bfs_inv_def by blast+
  have c2: "\<forall>x\<in>set q. seen cs src x" "distinct q" using i2 by auto
  have c4: "sorted (map d q)" "\<forall>x\<in>set q. d x \<le> Suc (d (hd q))"
  proof -
    show "sorted (map d q)" using i4(1) by simp
    show "\<forall>x\<in>set q. d x \<le> Suc (d (hd q))"
    proof
      fix x assume x: "x \<in> set q"
      then have "q \<noteq> []" by auto
      then have "hd q \<in> set q" by simp
      then have "d u \<le> d (hd q)" using i4(1) by auto
      moreover have "d x \<le> Suc (d u)" using i4(2) x by simp
      ultimately show "d x \<le> Suc (d (hd q))" by simp
    qed
  qed
  have cu: "\<forall>m\<in>set (neighbours u). walkable cs m \<longrightarrow> seen cs src m"
    using i6 by (auto simp: neighbours_def)
  have c5: "\<forall>p. seen cs src p \<and> p \<notin> set q \<longrightarrow>
         (\<forall>m\<in>set (neighbours p). walkable cs m \<longrightarrow> seen cs src m)"
    using i5 cu by (metis set_ConsD)
  have c6: "\<forall>e\<in>set directions. e \<notin> set directions \<longrightarrow> q \<noteq> [] \<longrightarrow>
         walkable cs (step (hd q) e) \<longrightarrow> seen cs src (step (hd q) e)"
    by simp
  have c9: "\<forall>p. seen cs src p \<and> p \<notin> set q \<longrightarrow> p \<noteq> tgt"
    using i9 ut by (metis set_ConsD)
  show ?thesis
    unfolding bfs_inv_def using i1 c2 i3 c4 c5 c6 i8 c9 by blast
qed

lemma bfs_inv_init:
  assumes "visited (cs src)" "\<And>p. isValidPosition p \<Longrightarrow> p \<noteq> src \<Longrightarrow> \<not> visited (cs p)"
  shows "bfs_inv src tgt cs Map.empty (\<lambda>p. 0) [src] directions"
proof -
  have s: "\<And>p. seen cs src p \<longleftrightarrow> p = src"
    using assms by (auto simp: seen_def)
  show ?thesis
    unfolding bfs_inv_def by (simp add: s del: walk.simps last.simps)
qed

lemma walk_stays_inside:
  assumes "\<And>p n. S p \<Longrightarrow> n \<in> set (neighbours p) \<Longrightarrow> walkable cs n \<Longrightarrow> S n"
  shows "walk cs a qs \<Longrightarrow> S a \<Longrightarrow> S (last (a # qs))"
  by (induction qs arbitrary: a) (use assms in auto)

lemma bfs_inv_exhausted:
  assumes inv: "bfs_inv src tgt cs pm d [] ds"
  shows "\<not> (\<exists>qs. walk cs src qs \<and> last (src # qs) = tgt)"
proof
  assume "\<exists>qs. walk cs src qs \<and> last (src # qs) = tgt"
  then obtain qs where qs: "walk cs src qs" "last (src # qs) = tgt" by blast
  from inv have
    i1: "seen cs src src" and
    i5: "\<forall>p. seen cs src p \<and> p \<notin> set [] \<longrightarrow>
         (\<forall>m\<in>set (neighbours p). walkable cs m \<longrightarrow> seen cs src m)" and
    i9: "\<forall>p. seen cs src p \<and> p \<notin> set [] \<longrightarrow> p \<noteq> tgt"
    unfolding bfs_inv_def by blast+
  have "seen cs src (last (src # qs))"
    by (rule walk_stays_inside [of "seen cs src", OF _ qs(1) i1]) (use i5 in auto)
  moreover have "\<forall>p. seen cs src p \<longrightarrow> p \<noteq> tgt" using i9 by simp
  ultimately show False using qs(2) by blast
qed

lemma reconstruct_chain:
  assumes inv: "bfs_inv src tgt cs pm d qa ds"
  shows "seen cs src p \<Longrightarrow> d p = k \<Longrightarrow>
     \<exists>ws. reconstruct_loop src pm p acc = Some (acc @ rev ws) \<and> walk cs src ws \<and>
          last (src # ws) = p \<and> map d ws = [1 ..< Suc k]"
proof (induction k arbitrary: p acc)
  case 0
  from inv have i3: "\<forall>p. seen cs src p \<and> p \<noteq> src \<longrightarrow>
         (\<exists>w. pm (key p) = Some w \<and> seen cs src w \<and> p \<in> set (neighbours w) \<and>
              walkable cs p \<and> d p = Suc (d w))"
    unfolding bfs_inv_def by blast
  with 0 have "p = src" by (metis nat.distinct(1))
  then have "reconstruct_loop src pm p acc = Some (acc @ rev [])"
    by (simp add: reconstruct_loop.simps)
  moreover have "walk cs src []" "last (src # []) = p" "map d [] = [1 ..< Suc 0]"
    using \<open>p = src\<close> by simp_all
  ultimately show ?case by blast
next
  case (Suc k)
  from inv have i1: "d src = 0" and i3: "\<forall>p. seen cs src p \<and> p \<noteq> src \<longrightarrow>
         (\<exists>w. pm (key p) = Some w \<and> seen cs src w \<and> p \<in> set (neighbours w) \<and>
              walkable cs p \<and> d p = Suc (d w))"
    unfolding bfs_inv_def by blast+
  from Suc.prems i1 have ps: "p \<noteq> src" by auto
  with Suc.prems i3 obtain w where w: "pm (key p) = Some w" "seen cs src w"
    "p \<in> set (neighbours w)" "walkable cs p" "d p = Suc (d w)" by blast
  then have "d w = k" using Suc.prems by simp
  from Suc.IH [OF w(2) this, of "acc @ [p]"] obtain ws where
    ws: "reconstruct_loop src pm w (acc @ [p]) = Some ((acc @ [p]) @ rev ws)"
      "walk cs src ws" "last (src # ws) = w" "map d ws = [1 ..< Suc k]" by blast
  have "reconstruct_loop src pm p acc = reconstruct_loop src pm w (acc @ [p])"
    using ps w(1) by (subst reconstruct_loop.simps) (simp add: parent_of_def key_def)
  then have a: "reconstruct_loop src pm p acc = Some (acc @ rev (ws @ [p]))"
    using ws(1) by simp
  have b: "walk cs src (ws @ [p])"
    using ws(2,3) w(3,4) by (simp only: walk_append walk.simps)
  have c: "last (src # ws @ [p]) = p" by simp
  have e: "map d (ws @ [p]) = [1 ..< Suc (Suc k)]"
    using ws(4) Suc.prems(2) by simp
  from a b c e show ?case by blast
qed


definition reachable :: "grid \<Rightarrow> Vector2i \<Rightarrow> Vector2i \<Rightarrow> bool" where
  "reachable cs a b = (\<exists>qs. walk cs a qs \<and> last (a # qs) = b)"

definition shortest_walk :: "grid \<Rightarrow> Vector2i \<Rightarrow> Vector2i \<Rightarrow> Vector2i list \<Rightarrow> bool" where
  "shortest_walk cs a b ws =
     (walk cs a ws \<and> last (a # ws) = b \<and>
      (\<forall>qs. walk cs a qs \<and> last (a # qs) = b \<longrightarrow> length ws \<le> length qs))"

definition bfs_post :: "grid \<Rightarrow> Vector2i \<Rightarrow> Vector2i \<Rightarrow> Maze \<Rightarrow> bool" where
  "bfs_post cs a b m' =
     (if reachable cs a b
      then pathFound m' \<and> shortest_walk cs a b (path m') \<and> distinct (a # path m')
      else \<not> pathFound m' \<and> path m' = [])"

lemma reachable_cong: "(\<And>p. type (cs' p) = type (cs p)) \<Longrightarrow> reachable cs' a b = reachable cs a b"
  by (simp add: reachable_def walk_cong [of cs' cs])

lemma shortest_walk_cong:
  "(\<And>p. type (cs' p) = type (cs p)) \<Longrightarrow> shortest_walk cs' a b ws = shortest_walk cs a b ws"
  by (simp add: shortest_walk_def walk_cong [of cs' cs])

lemma bfs_post_cong:
  "(\<And>p. type (cs' p) = type (cs p)) \<Longrightarrow> bfs_post cs' a b m' = bfs_post cs a b m'"
  by (simp add: bfs_post_def reachable_cong [of cs' cs] shortest_walk_cong [of cs' cs])

lemma bfs_inv_found:
  assumes inv: "bfs_inv src tgt cs pm d (tgt # q) ds"
  shows "\<exists>ws. reconstruct_loop src pm tgt [] = Some (rev ws) \<and> shortest_walk cs src tgt ws \<and>
     distinct (src # ws)"
proof -
  from inv have i1: "d src = 0" and i2: "\<forall>x\<in>set (tgt # q). seen cs src x" and
    i8: "\<forall>qs. walk cs src qs \<and> seen cs src (last (src # qs)) \<longrightarrow> d (last (src # qs)) \<le> length qs"
    unfolding bfs_inv_def by blast+
  have st: "seen cs src tgt" using i2 by simp
  from reconstruct_chain [OF inv st refl, of "[]"] obtain ws where
    ws: "reconstruct_loop src pm tgt [] = Some ([] @ rev ws)" "walk cs src ws"
      "last (src # ws) = tgt" "map d ws = [1 ..< Suc (d tgt)]" by blast
  have len: "length ws = d tgt"
    using arg_cong [OF ws(4), of length] by simp
  have "\<forall>qs. walk cs src qs \<and> last (src # qs) = tgt \<longrightarrow> length ws \<le> length qs"
    using i8 st len by metis
  then have sw: "shortest_walk cs src tgt ws"
    using ws(2,3) unfolding shortest_walk_def by blast
  have "map d (src # ws) = [0 ..< Suc (d tgt)]"
    using ws(4) i1 by (simp add: upt_conv_Cons del: upt_Suc)
  then have "distinct (map d (src # ws))" by (simp only: distinct_upt)
  then have "distinct (src # ws)" by (simp only: distinct_map)
  with ws(1) sw show ?thesis by auto
qed

lemma bfs_loop_result:
  "bfs_inv (playerPos m) (targetPos m) (cells m) pm d q directions \<Longrightarrow>
   path m = [] \<Longrightarrow> \<not> pathFound m \<Longrightarrow>
     \<exists>m'. bfs_loop m q pm = Some m' \<and> bfs_post (cells m) (playerPos m) (targetPos m) m'"
proof (induction m q pm arbitrary: d rule: bfs_loop.induct)
  case (1 m parentMap)
  from bfs_inv_exhausted [OF "1.prems"(1)]
  have "\<not> reachable (cells m) (playerPos m) (targetPos m)" by (simp add: reachable_def)
  then show ?case using "1.prems"(2,3) by (simp add: bfs_post_def)
next
  case (2 m current queue parentMap)
  show ?case
  proof (cases "current = targetPos m")
    case True
    from bfs_inv_found [of "playerPos m" "targetPos m" "cells m" parentMap d queue directions]
      "2.prems"(1) True
    obtain ws where ws: "reconstruct_loop (playerPos m) parentMap (targetPos m) [] = Some (rev ws)"
      "shortest_walk (cells m) (playerPos m) (targetPos m) ws" "distinct (playerPos m # ws)"
      by blast
    have r: "reachable (cells m) (playerPos m) (targetPos m)"
      using ws(2) unfolding reachable_def shortest_walk_def by blast
    have "bfs_loop m (current # queue) parentMap = Some (m\<lparr>pathFound := True, path := ws\<rparr>)"
      using True ws(1) "2.prems"(2) by (simp add: reconstructPath_def)
    then show ?thesis using r ws(2,3) by (simp add: bfs_post_def)
  next
    case False
    obtain cs q pm where e: "expand current directions (cells m, queue, parentMap) = (cs, q, pm)"
      by (cases "expand current directions (cells m, queue, parentMap)")
    from expand_inv [OF "2.prems"(1) e] obtain d' where
      "bfs_inv (playerPos m) (targetPos m) cs pm d' (current # q) []" by blast
    from bfs_inv_pop [OF this] False
    have inv: "bfs_inv (playerPos m) (targetPos m) cs pm d' q directions" by blast
    have "\<exists>m'. bfs_loop (m\<lparr>cells := cs\<rparr>) q pm = Some m' \<and>
        bfs_post (cells (m\<lparr>cells := cs\<rparr>)) (playerPos (m\<lparr>cells := cs\<rparr>)) (targetPos (m\<lparr>cells := cs\<rparr>)) m'"
      by (rule "2.IH" [OF False e [symmetric] refl, of d']) (use inv "2.prems"(2,3) in simp_all)
    then obtain m' where m': "bfs_loop (m\<lparr>cells := cs\<rparr>) q pm = Some m'"
      "bfs_post cs (playerPos m) (targetPos m) m'" by auto
    have "bfs_post (cells m) (playerPos m) (targetPos m) m'"
      using m'(2) bfs_post_cong [of cs "cells m"] expand_type [OF e] by simp
    moreover have "bfs_loop m (current # queue) parentMap = Some m'"
      using False e m'(1) by simp
    ultimately show ?thesis by blast
  qed
qed

lemma findPathBFS_result:
  "\<exists>m'. findPathBFS m = Some m' \<and> bfs_post (cells m) (playerPos m) (targetPos m) m'"
proof -
  let ?m1 = "resetVisited m"
  let ?m2 = "?m1\<lparr>cells := mark (cells ?m1) (playerPos ?m1)\<rparr>"
  have f: "findPathBFS m = bfs_loop ?m2 [playerPos ?m2] Map.empty"
    by (simp add: findPathBFS_def Let_def mark_def)
  have "bfs_inv (playerPos ?m2) (targetPos ?m2) (cells ?m2) Map.empty (\<lambda>p. 0) [playerPos ?m2] directions"
    by (rule bfs_inv_init) (auto simp: resetVisited_def mark_def)
  from bfs_loop_result [OF this]
  obtain m' where m': "bfs_loop ?m2 [playerPos ?m2] Map.empty = Some m'"
    "bfs_post (cells ?m2) (playerPos ?m2) (targetPos ?m2) m'"
    by (auto simp: resetVisited_def)
  have "bfs_post (cells m) (playerPos m) (targetPos m) m'"
    using m'(2) bfs_post_cong [of "cells ?m2" "cells m"]
    by (simp add: resetVisited_def mark_def)
  with m'(1) f show ?thesis by simp
qed

text \<open>
  The BFS layer distance from \<open>a\<close> to \<open>b\<close>: the least number of edges of a walk between
  them.
\<close>

definition layer_distance :: "grid \<Rightarrow> Vector2i \<Rightarrow> Vector2i \<Rightarrow> nat" where
  "layer_distance cs a b = (LEAST n. \<exists>qs. walk cs a qs \<and> last (a # qs) = b \<and> length qs = n)"

lemma shortest_walk_length: "shortest_walk cs a b ws \<Longrightarrow> length ws = layer_distance cs a b"
  unfolding layer_distance_def shortest_walk_def
  by (rule Least_equality [symmetric]) auto

lemma findPathBFS_resetVisited: "findPathBFS (resetVisited m) = findPathBFS m"
proof -
  have "resetVisited (resetVisited m) = resetVisited m"
    by (simp add: resetVisited_def fun_eq_iff)
  then show ?thesis by (simp add: findPathBFS_def)
qed

lemma example_reachable:
  "reachable (cells example_maze) (playerPos example_maze) (targetPos example_maze)"
proof -
  have "walk (cells example_maze) (17, 19) [(18, 19), (19, 19)]"
    by (simp add: example_maze_def example_cells_def neighbours_def directions_def step_def
        walkable_def isValidPosition_def MAZE_WIDTH_def MAZE_HEIGHT_def)
  then show ?thesis
    unfolding reachable_def by (intro exI [of _ "[(18, 19), (19, 19)]"]) (simp add: example_maze_def)
qed

lemma example_path: "map_option path (findPathBFS example_maze) = Some [(18, 19), (19, 19)]"
  by code_simp

lemma blocked_unreachable:
  "\<not> reachable (cells blocked_maze) (playerPos blocked_maze) (targetPos blocked_maze)"
proof
  assume "reachable (cells blocked_maze) (playerPos blocked_maze) (targetPos blocked_maze)"
  then obtain qs where qs: "walk (cells blocked_maze) (17, 19) qs" "last ((17, 19) # qs) = (19, 19)"
    unfolding reachable_def by (auto simp: blocked_maze_def example_maze_def)
  show False
  proof (cases qs)
    case Nil
    with qs(2) show False by simp
  next
    case (Cons q qs')
    with qs(1) show False
      by (auto simp: blocked_maze_def example_maze_def example_cells_def neighbours_def
          directions_def step_def walkable_def)
  qed
qed

text \<open>
  Two grids that agree, on every valid position, in kind and in the visited flag: the
  search cannot tell them apart.
\<close>

definition same_grid :: "grid \<Rightarrow> grid \<Rightarrow> bool" where
  "same_grid cs1 cs2 =
     (\<forall>p. isValidPosition p \<longrightarrow> type (cs1 p) = type (cs2 p) \<and> visited (cs1 p) = visited (cs2 p))"

lemma same_grid_mark: "same_grid cs1 cs2 \<Longrightarrow> same_grid (mark cs1 n) (mark cs2 n)"
  unfolding same_grid_def mark_def by auto

lemma expand_same_grid:
  "same_grid cs1 cs2 \<Longrightarrow>
     \<exists>cs1' cs2' q' pm'. expand u ds (cs1, q, pm) = (cs1', q', pm') \<and>
        expand u ds (cs2, q, pm) = (cs2', q', pm') \<and> same_grid cs1' cs2'"
proof (induction ds arbitrary: cs1 cs2 q pm)
  case Nil
  then show ?case by simp
next
  case (Cons dir ds)
  let ?n = "step u dir"
  have c: "(isValidPosition ?n \<and> \<not> visited (cs1 ?n) \<and> type (cs1 ?n) \<noteq> WALL) =
      (isValidPosition ?n \<and> \<not> visited (cs2 ?n) \<and> type (cs2 ?n) \<noteq> WALL)"
    using Cons.prems [unfolded same_grid_def, rule_format, of ?n] by auto
  show ?case
  proof (cases "isValidPosition ?n \<and> \<not> visited (cs1 ?n) \<and> type (cs1 ?n) \<noteq> WALL")
    case True
    then have e1: "expand u (dir # ds) (cs1, q, pm) =
        expand u ds (mark cs1 ?n, q @ [?n], pm(key ?n \<mapsto> u))"
      by (simp add: expand_Cons del: expand.simps)
    from True c have e2: "expand u (dir # ds) (cs2, q, pm) =
        expand u ds (mark cs2 ?n, q @ [?n], pm(key ?n \<mapsto> u))"
      by (simp add: expand_Cons del: expand.simps)
    show ?thesis
      unfolding e1 e2 by (rule Cons.IH [OF same_grid_mark [OF Cons.prems]])
  next
    case False
    then have e1: "expand u (dir # ds) (cs1, q, pm) = expand u ds (cs1, q, pm)"
      by (auto simp add: expand_Cons simp del: expand.simps)
    from False c have e2: "expand u (dir # ds) (cs2, q, pm) = expand u ds (cs2, q, pm)"
      by (auto simp add: expand_Cons simp del: expand.simps)
    show ?thesis
      unfolding e1 e2 by (rule Cons.IH [OF Cons.prems])
  qed
qed

lemma bfs_loop_same_grid:
  "same_grid (cells m1) (cells m2) \<Longrightarrow> playerPos m1 = playerPos m2 \<Longrightarrow>
   targetPos m1 = targetPos m2 \<Longrightarrow> path m1 = path m2 \<Longrightarrow> pathFound m1 = pathFound m2 \<Longrightarrow>
     map_option path (bfs_loop m1 q pm) = map_option path (bfs_loop m2 q pm) \<and>
     map_option pathFound (bfs_loop m1 q pm) = map_option pathFound (bfs_loop m2 q pm)"
proof (induction m1 q pm arbitrary: m2 rule: bfs_loop.induct)
  case (1 m parentMap)
  then show ?case by simp
next
  case (2 m current queue parentMap)
  show ?case
  proof (cases "current = targetPos m")
    case True
    then show ?thesis
      using "2.prems" by (simp add: reconstructPath_def split: option.splits)
  next
    case False
    from expand_same_grid [OF "2.prems"(1), of current directions queue parentMap]
    obtain cs1 cs2 q pm where
      e1: "expand current directions (cells m, queue, parentMap) = (cs1, q, pm)" and
      e2: "expand current directions (cells m2, queue, parentMap) = (cs2, q, pm)" and
      sg: "same_grid cs1 cs2" by blast
    have "map_option path (bfs_loop (m\<lparr>cells := cs1\<rparr>) q pm) =
          map_option path (bfs_loop (m2\<lparr>cells := cs2\<rparr>) q pm) \<and>
        map_option pathFound (bfs_loop (m\<lparr>cells := cs1\<rparr>) q pm) =
          map_option pathFound (bfs_loop (m2\<lparr>cells := cs2\<rparr>) q pm)"
      by (rule "2.IH" [OF False e1 [symmetric] refl]) (use sg "2.prems" in simp_all)
    then show ?thesis
      using False e1 e2 "2.prems"(3) by simp
  qed
qed

lemma findPathBFS_same_kinds:
  assumes "\<forall>p. isValidPosition p \<longrightarrow> type (cells m1 p) = type (cells m2 p)"
    and "playerPos m1 = playerPos m2" "targetPos m1 = targetPos m2"
  shows "map_option path (findPathBFS m1) = map_option path (findPathBFS m2) \<and>
     map_option pathFound (findPathBFS m1) = map_option pathFound (findPathBFS m2)"
proof -
  let ?a = "(resetVisited m1)\<lparr>cells := mark (cells (resetVisited m1)) (playerPos m1)\<rparr>"
  let ?b = "(resetVisited m2)\<lparr>cells := mark (cells (resetVisited m2)) (playerPos m1)\<rparr>"
  have a: "findPathBFS m1 = bfs_loop ?a [playerPos m1] Map.empty"
    by (simp add: findPathBFS_def Let_def mark_def resetVisited_def)
  have b: "findPathBFS m2 = bfs_loop ?b [playerPos m1] Map.empty"
    using assms(2) by (simp add: findPathBFS_def Let_def mark_def resetVisited_def)
  have "same_grid (cells (resetVisited m1)) (cells (resetVisited m2))"
    using assms(1) unfolding same_grid_def resetVisited_def by auto
  then have "same_grid (cells ?a) (cells ?b)"
    using same_grid_mark by simp
  from bfs_loop_same_grid [OF this, of "[playerPos m1]" Map.empty] assms(2,3)
  show ?thesis
    unfolding a b by (simp add: resetVisited_def)
qed

subsection \<open>The animation\<close>

lemma length_all_cells: "length all_cells = 441"
  by code_simp

lemma distinct_all_cells: "distinct all_cells"
  unfolding all_cells_def
  by (rule distinct_concat) (auto simp: distinct_map inj_on_def)

lemma valid_list_length:
  assumes "distinct qs" "\<forall>p\<in>set qs. isValidPosition p"
  shows "length qs \<le> 441"
proof -
  have "set qs \<subseteq> set all_cells" using assms(2) by (auto simp: in_all_cells)
  then have "card (set qs) \<le> card (set all_cells)" by (intro card_mono) auto
  also have "\<dots> \<le> length all_cells" by (rule card_length)
  finally show ?thesis using assms(1) by (simp add: distinct_card length_all_cells)
qed

lemma walk_valid: "walk cs a qs \<Longrightarrow> \<forall>p\<in>set qs. isValidPosition p"
  by (induction qs arbitrary: a) (auto simp: walkable_def)

lemma findPathBFS_total: "\<exists>m'. findPathBFS m = Some m'"
  using findPathBFS_result [of m] by blast

lemma findPathBFS_found:
  assumes "findPathBFS m = Some m'" "pathFound m'"
  shows "walk (cells m) (playerPos m) (path m')" "last (playerPos m # path m') = targetPos m"
    "distinct (playerPos m # path m')" "length (path m') \<le> 441"
proof -
  from findPathBFS_result [of m] assms(1)
  have "bfs_post (cells m) (playerPos m) (targetPos m) m'" by simp
  with assms(2) have sw: "shortest_walk (cells m) (playerPos m) (targetPos m) (path m')"
    and d: "distinct (playerPos m # path m')"
    by (auto simp: bfs_post_def split: if_splits)
  from sw show w: "walk (cells m) (playerPos m) (path m')"
    and "last (playerPos m # path m') = targetPos m"
    unfolding shortest_walk_def by blast+
  from d show "distinct (playerPos m # path m')" .
  from d walk_valid [OF w] show "length (path m') \<le> 441"
    by (intro valid_list_length) auto
qed

lemma prepareAutoMove_eq:
  "findPathBFS m = Some m1 \<Longrightarrow>
     prepareAutoMove m =
       Some (if pathFound m1
             then m1\<lparr>autoMoving := True, currentMoveIndex := 0, movePath := playerPos m # path m1\<rparr>
             else m1)"
  using findPathBFS_frame [of m m1] by (simp add: prepareAutoMove_def)

lemma reset_anim: "\<not> autoMoving (reset m)" "movePath (reset m) = []" "currentMoveIndex (reset m) = 0"
  by (simp_all add: reset_def Let_def)

text \<open>The invariant of claim C9: a running animation has a path to run on.\<close>

definition anim_ok :: "Maze \<Rightarrow> bool" where
  "anim_ok m = (autoMoving m \<longrightarrow> movePath m \<noteq> [])"

lemma generateMaze_frame:
  "autoMoving (generateMaze m) = autoMoving m \<and> movePath (generateMaze m) = movePath m \<and>
   currentMoveIndex (generateMaze m) = currentMoveIndex m \<and> path (generateMaze m) = path m \<and>
   pathFound (generateMaze m) = pathFound m \<and> playerPos (generateMaze m) = playerPos m \<and>
   targetPos (generateMaze m) = targetPos m"
  by (simp add: generateMaze_def Let_def split: prod.splits del: gen_loop.simps)

lemma autoMoveStep_frame:
  "autoMoveStep m = Some (b, m') \<Longrightarrow> movePath m' = movePath m \<and> targetPos m' = targetPos m \<and>
     (autoMoving m' \<longrightarrow> autoMoving m)"
  by (auto simp: autoMoveStep_def Let_def split: if_splits)

lemma size_minus_one:
  "1 \<le> n \<Longrightarrow> n < 2 ^ 64 \<Longrightarrow> unat (word_of_nat n - 1 :: 64 word) = n - 1"
proof -
  assume n: "1 \<le> n" "n < 2 ^ 64"
  have "(word_of_nat n - 1 :: 64 word) = word_of_nat (n - 1)"
    using n(1) by (simp add: of_nat_diff)
  then show ?thesis
    using n(2) by (simp add: unat_of_nat)
qed

lemma index_compare:
  "k < 2 ^ 64 \<Longrightarrow> length xs < 2 ^ 64 \<Longrightarrow>
     ((word_of_int (int k) :: 64 word) \<ge> word_of_nat (length (a # xs)) - 1) = (length xs \<le> k)"
  by (simp add: word_of_nat_less_eq_iff take_bit_nat_eq_self)

lemma anim_ok_reset: "anim_ok (reset m)"
  by (simp add: anim_ok_def reset_anim)

lemma anim_ok_established:
  "anim_ok (new_Maze r) \<and> anim_ok (reset m) \<and> anim_ok (generateNewMaze m)"
  unfolding new_Maze_def generateNewMaze_def by (intro conjI anim_ok_reset)

text \<open>
  The animation stands at index \<open>k\<close> of the animation path \<open>mp\<close>, on its way to \<open>tgt\<close>.
\<close>

definition anim_at :: "Vector2i list \<Rightarrow> Vector2i \<Rightarrow> nat \<Rightarrow> Maze \<Rightarrow> bool" where
  "anim_at mp tgt k s =
     (movePath s = mp \<and> targetPos s = tgt \<and> currentMoveIndex s = int k \<and> playerPos s = mp ! k)"

lemma step_running:
  assumes at: "anim_at (src # P) tgt k s" and am: "autoMoving s" and k: "k < length P"
    and len: "length P \<le> 441" and d: "distinct (src # P)" and l: "last (src # P) = tgt"
  shows "\<exists>s'. autoMoveStep s = Some (True, s') \<and> anim_at (src # P) tgt (Suc k) s' \<and>
     (autoMoving s' \<longleftrightarrow> Suc k < length P)"
proof -
  from at have mp: "movePath s = src # P" and tp: "targetPos s = tgt"
    and ix: "currentMoveIndex s = int k" by (simp_all add: anim_at_def)
  have g: "\<not> ((word_of_int (currentMoveIndex s) :: 64 word) \<ge> word_of_nat (length (movePath s)) - 1)"
  proof -
    have "k < 2 ^ 64" "length P < 2 ^ 64" using k len by simp_all
    from index_compare [OF this, of src] k show ?thesis unfolding mp ix by simp
  qed
  have ne: "P \<noteq> []" using k by auto
  have "tgt = P ! (length P - 1)" using l ne by (simp add: last_conv_nth)
  then have "(P ! k = tgt) = (Suc k = length P)"
    using d k ne by (auto simp: nth_eq_iff_index_eq)
  with k have e: "(P ! k = tgt) = (\<not> Suc k < length P)" by auto
  have nk: "nat (int k + 1) = Suc k" by simp
  show ?thesis
    using am g k e unfolding autoMoveStep_def Let_def anim_at_def
    by (auto simp add: mp tp ix nk)
qed

lemma step_stopped: "\<not> autoMoving s \<Longrightarrow> autoMoveStep s = Some (False, s)"
  by (simp add: autoMoveStep_def)

lemma step_nothing_to_do:
  assumes "anim_at [src] tgt 0 s"
  shows "autoMoveStep s = Some (False, s\<lparr>autoMoving := False\<rparr>)"
  using assms by (simp add: autoMoveStep_def anim_at_def)

lemma steps_stopped: "\<not> autoMoving s \<Longrightarrow> autoMoveSteps i s = Some (replicate i False, s)"
  by (induction i) (simp_all add: step_stopped)

lemma steps_running:
  assumes len: "length P \<le> 441" and d: "distinct (src # P)" and l: "last (src # P) = tgt"
  shows "anim_at (src # P) tgt k s \<Longrightarrow> autoMoving s = (k < length P) \<Longrightarrow> k + i \<le> length P \<Longrightarrow>
     \<exists>s'. autoMoveSteps i s = Some (replicate i True, s') \<and> anim_at (src # P) tgt (k + i) s' \<and>
          autoMoving s' = (k + i < length P)"
proof (induction i arbitrary: k s)
  case 0
  then show ?case by simp
next
  case (Suc i)
  then have k: "k < length P" and am: "autoMoving s" by auto
  from step_running [OF Suc.prems(1) am k len d l] obtain s1 where
    s1: "autoMoveStep s = Some (True, s1)" "anim_at (src # P) tgt (Suc k) s1"
      "autoMoving s1 = (Suc k < length P)" by blast
  from Suc.IH [OF s1(2,3)] Suc.prems(3) obtain s' where
    s': "autoMoveSteps i s1 = Some (replicate i True, s')" "anim_at (src # P) tgt (Suc k + i) s'"
      "autoMoving s' = (Suc k + i < length P)" by auto
  from s1(1) s' show ?case by simp
qed

lemma autoMoveSteps_add:
  "autoMoveSteps (i + j) s =
     (case autoMoveSteps i s of
        None \<Rightarrow> None
      | Some (bs, s1) \<Rightarrow>
          (case autoMoveSteps j s1 of
             None \<Rightarrow> None
           | Some (bs', s2) \<Rightarrow> Some (bs @ bs', s2)))"
  by (induction i arbitrary: s) (auto split: option.splits)

lemma prepared_state:
  assumes p: "prepareAutoMove m = Some m0" and f: "pathFound m0"
  shows "anim_at (playerPos m # path m0) (targetPos m) 0 m0" "autoMoving m0"
    "distinct (playerPos m # path m0)" "last (playerPos m # path m0) = targetPos m"
    "length (path m0) \<le> 441" "targetPos m0 = targetPos m"
proof -
  from p obtain m1 where m1: "findPathBFS m = Some m1"
    by (auto simp: prepareAutoMove_def split: option.splits)
  from prepareAutoMove_eq [OF m1] p
  have e: "m0 = (if pathFound m1
        then m1\<lparr>autoMoving := True, currentMoveIndex := 0, movePath := playerPos m # path m1\<rparr>
        else m1)" by simp
  with f have f1: "pathFound m1" by (auto split: if_splits)
  with e have m0: "m0 = m1\<lparr>autoMoving := True, currentMoveIndex := 0, movePath := playerPos m # path m1\<rparr>"
    by simp
  note fr = findPathBFS_frame [OF m1]
  note fo = findPathBFS_found [OF m1 f1]
  show "anim_at (playerPos m # path m0) (targetPos m) 0 m0"
    using fr by (simp add: m0 anim_at_def)
  show "autoMoving m0" by (simp add: m0)
  show "distinct (playerPos m # path m0)" using fo(3) by (simp add: m0)
  show "last (playerPos m # path m0) = targetPos m" using fo(2) by (simp add: m0)
  show "length (path m0) \<le> 441" using fo(4) by (simp add: m0)
  show "targetPos m0 = targetPos m" using fr by (simp add: m0)
qed

lemma example_prepare: "prepareAutoMove example_maze = Some animating_maze"
proof -
  obtain m1 where "findPathBFS example_maze = Some m1" using findPathBFS_total by blast
  then obtain m0 where "prepareAutoMove example_maze = Some m0"
    by (simp add: prepareAutoMove_def)
  then show ?thesis by (simp add: animating_maze_def)
qed

subsection \<open>The Player and Target tags\<close>

text \<open>How many cells of the grid carry the kind \<open>k\<close>.\<close>

definition count_type :: "CellType \<Rightarrow> grid \<Rightarrow> nat" where
  "count_type k cs = length (filter (\<lambda>p. type (cs p) = k) all_cells)"

text \<open>
  The invariant behind claim C4: the player position is valid and is the one cell
  tagged PLAYER; the target position is \<open>(19, 19)\<close> and no other cell is tagged TARGET;
  the animation path holds valid positions only.
\<close>

definition tags_ok :: "Maze \<Rightarrow> bool" where
  "tags_ok m =
     (isValidPosition (playerPos m) \<and>
      (\<forall>p. isValidPosition p \<longrightarrow> (type (cells m p) = PLAYER \<longleftrightarrow> p = playerPos m)) \<and>
      targetPos m = (MAZE_WIDTH - 2, MAZE_HEIGHT - 2) \<and>
      (\<forall>p. isValidPosition p \<longrightarrow> type (cells m p) = TARGET \<longrightarrow> p = targetPos m) \<and>
      (\<forall>p\<in>set (movePath m). isValidPosition p))"

lemma filter_single:
  "distinct xs \<Longrightarrow> q \<in> set xs \<Longrightarrow> (\<And>p. p \<in> set xs \<Longrightarrow> P p \<longleftrightarrow> p = q) \<Longrightarrow>
     length (filter P xs) = 1"
proof (induction xs)
  case Nil
  then show ?case by simp
next
  case (Cons a xs)
  show ?case
  proof (cases "a = q")
    case True
    then have "q \<notin> set xs" using Cons.prems(1) by simp
    then have "filter P xs = []" using Cons.prems(3) by (auto simp: filter_empty_conv)
    then show ?thesis using True Cons.prems(3) by simp
  next
    case False
    then have "\<not> P a" using Cons.prems(3) by auto
    moreover have "length (filter P xs) = 1"
      using Cons.IH Cons.prems False by auto
    ultimately show ?thesis by simp
  qed
qed

lemma filter_at_most_one:
  "distinct xs \<Longrightarrow> (\<And>p. p \<in> set xs \<Longrightarrow> P p \<Longrightarrow> p = q) \<Longrightarrow> length (filter P xs) \<le> 1"
proof (induction xs)
  case Nil
  then show ?case by simp
next
  case (Cons a xs)
  show ?case
  proof (cases "P a")
    case True
    then have "a = q" using Cons.prems(2) by simp
    then have "q \<notin> set xs" using Cons.prems(1) by simp
    then have "filter P xs = []" using Cons.prems(2) by (auto simp: filter_empty_conv)
    then show ?thesis by simp
  next
    case False
    then show ?thesis using Cons.IH Cons.prems by auto
  qed
qed

lemma count_player:
  assumes "tags_ok m"
  shows "count_type PLAYER (cells m) = 1"
  unfolding count_type_def
  by (rule filter_single [OF distinct_all_cells, of "playerPos m"])
    (use assms in \<open>auto simp: tags_ok_def in_all_cells\<close>)

lemma count_target_le:
  assumes "tags_ok m"
  shows "count_type TARGET (cells m) \<le> 1"
  unfolding count_type_def
  by (rule filter_at_most_one [OF distinct_all_cells, of _ "targetPos m"])
    (use assms in \<open>auto simp: tags_ok_def in_all_cells\<close>)

lemma count_type_cong:
  "(\<And>p. isValidPosition p \<Longrightarrow> type (cs' p) = type (cs p)) \<Longrightarrow> count_type k cs' = count_type k cs"
  unfolding count_type_def by (rule arg_cong [of _ _ length], rule filter_cong) (auto simp: in_all_cells)

lemma valid_corners:
  "isValidPosition (1, 1)" "isValidPosition (MAZE_WIDTH - 2, MAZE_HEIGHT - 2)"
  "(1, 1) \<noteq> (MAZE_WIDTH - 2, MAZE_HEIGHT - 2)"
  by (simp_all add: isValidPosition_def MAZE_WIDTH_def MAZE_HEIGHT_def)

lemma reset_fields:
  "playerPos (reset m) = (1, 1)" "targetPos (reset m) = (MAZE_WIDTH - 2, MAZE_HEIGHT - 2)"
  "movePath (reset m) = []"
  by (simp_all add: reset_def Let_def)

lemma reset_type:
  "isValidPosition p \<Longrightarrow>
     type (cells (reset m) p) =
       (if p = (MAZE_WIDTH - 2, MAZE_HEIGHT - 2) then TARGET
        else if p = (1, 1) then PLAYER
        else if type (cells m p) = PLAYER then PATH else type (cells m p))"
  by (simp add: reset_def Let_def)

lemma reset_tags:
  assumes a: "\<And>p. isValidPosition p \<Longrightarrow> type (cells m p) = TARGET \<Longrightarrow> p = (MAZE_WIDTH - 2, MAZE_HEIGHT - 2)"
  shows "tags_ok (reset m)" "count_type TARGET (cells (reset m)) = 1"
proof -
  define T where "T = (MAZE_WIDTH - 2, MAZE_HEIGHT - 2)"
  have vT: "isValidPosition T" and nT: "(1, 1) \<noteq> T"
    using valid_corners by (simp_all add: T_def)
  have ty: "\<And>p. isValidPosition p \<Longrightarrow>
     type (cells (reset m) p) =
       (if p = T then TARGET else if p = (1, 1) then PLAYER
        else if type (cells m p) = PLAYER then PATH else type (cells m p))"
    unfolding T_def by (rule reset_type)
  have pl: "\<And>p. isValidPosition p \<Longrightarrow> (type (cells (reset m) p) = PLAYER) = (p = (1, 1))"
    using nT by (simp add: ty)
  have tg: "\<And>p. isValidPosition p \<Longrightarrow> (type (cells (reset m) p) = TARGET) = (p = T)"
  proof -
    fix p assume v: "isValidPosition p"
    show "(type (cells (reset m) p) = TARGET) = (p = T)"
    proof (cases "type (cells m p) = TARGET")
      case True
      with a [OF v] have "p = T" by (simp add: T_def)
      then show ?thesis using ty [OF v] by simp
    next
      case False
      then show ?thesis by (simp add: ty [OF v])
    qed
  qed
  show "tags_ok (reset m)"
    unfolding tags_ok_def reset_fields T_def [symmetric]
    using valid_corners(1) pl tg by simp
  show "count_type TARGET (cells (reset m)) = 1"
    unfolding count_type_def
    by (rule filter_single [OF distinct_all_cells, of T]) (use vT tg in \<open>auto simp: in_all_cells\<close>)
qed

lemma carve_type: "type (carve cs c n p) = WALL \<or> type (carve cs c n p) = PATH \<or> type (carve cs c n p) = type (cs p)"
  by (simp add: carve_def Let_def)

lemma gen_loop_types:
  "gen_loop st cs r = (cs', r') \<Longrightarrow>
     (\<And>p. isValidPosition p \<Longrightarrow> type (cs p) = WALL \<or> type (cs p) = PATH) \<Longrightarrow>
     isValidPosition p \<Longrightarrow> type (cs' p) = WALL \<or> type (cs' p) = PATH"
proof (induction st cs r arbitrary: p rule: gen_loop.induct)
  case (1 cs r)
  then show ?case by simp
next
  case (2 current stack cs r)
  obtain neighbors r1 where g: "getUnvisitedNeighbors cs r (fst current) (snd current) = (neighbors, r1)"
    by (cases "getUnvisitedNeighbors cs r (fst current) (snd current)")
  show ?case
  proof (cases "neighbors \<noteq> []")
    case True
    obtain i r2 where u: "uniform_int r1 0 (length neighbors - 1) = (i, r2)"
      by (cases "uniform_int r1 0 (length neighbors - 1)")
    from "2.prems"(1) g True u
    have e: "gen_loop (neighbors ! i # current # stack) (carve cs current (neighbors ! i)) r2 = (cs', r')"
      by simp
    show ?thesis
    proof (rule "2.IH"(1) [OF g [symmetric] True u [symmetric] e _ "2.prems"(3)])
      fix q assume "isValidPosition q"
      then show "type (carve cs current (neighbors ! i) q) = WALL \<or>
          type (carve cs current (neighbors ! i) q) = PATH"
        using "2.prems"(2) [of q] carve_type [of cs current "neighbors ! i" q] by auto
    qed
  next
    case False
    from "2.prems"(1) g False have e: "gen_loop stack cs r1 = (cs', r')" by simp
    show ?thesis
      by (rule "2.IH"(2) [OF g [symmetric] False e "2.prems"(2,3)])
  qed
qed

text \<open>The grid at the moment \<open>generateMaze\<close> enters its loop.\<close>

definition start_cells :: "grid \<Rightarrow> grid" where
  "start_cells cs =
     (let cs0 = blank_cells cs;
          cs1 = cs0((1, 1) := (cs0 (1, 1))\<lparr>type := PATH\<rparr>);
          cs2 = cs1((MAZE_WIDTH - 2, MAZE_HEIGHT - 2) :=
                  (cs1 (MAZE_WIDTH - 2, MAZE_HEIGHT - 2))\<lparr>type := PATH\<rparr>)
      in cs2((1, 1) := (cs2 (1, 1))\<lparr>visited := True\<rparr>))"

lemma generateMaze_eq:
  "generateMaze m =
     (case gen_loop [(1, 1)] (start_cells (cells m)) (rng m) of
        (cs, r) \<Rightarrow> m\<lparr>cells := cs, rng := r\<rparr>)"
  unfolding generateMaze_def start_cells_def Let_def ..

lemma start_cells_at:
  "isValidPosition p \<Longrightarrow>
     start_cells cs p =
       \<lparr>cell_x = fst p, cell_y = snd p,
        type = (if p = (1, 1) \<or> p = (MAZE_WIDTH - 2, MAZE_HEIGHT - 2) then PATH else WALL),
        visited = (p = (1, 1))\<rparr>"
  using valid_corners by (auto simp: start_cells_def Let_def blank_cells_def)

lemma generateMaze_types:
  "isValidPosition p \<Longrightarrow> type (cells (generateMaze m) p) = WALL \<or> type (cells (generateMaze m) p) = PATH"
proof -
  assume v: "isValidPosition p"
  obtain cs r where g: "gen_loop [(1, 1)] (start_cells (cells m)) (rng m) = (cs, r)"
    by (cases "gen_loop [(1, 1)] (start_cells (cells m)) (rng m)")
  then have c: "cells (generateMaze m) = cs"
    by (simp add: generateMaze_eq del: gen_loop.simps)
  have "type (cs p) = WALL \<or> type (cs p) = PATH"
    by (rule gen_loop_types [OF g _ v]) (simp add: start_cells_at)
  then show ?thesis by (simp only: c)
qed

lemma fresh_maze_tags:
  "tags_ok (reset (generateMaze m))" "count_type TARGET (cells (reset (generateMaze m))) = 1"
  by (rule reset_tags; use generateMaze_types [of _ m] in force)+


lemma count_type_same:
  "(\<And>p. isValidPosition p \<Longrightarrow> (type (cs' p) = k) = (type (cs p) = k)) \<Longrightarrow>
     count_type k cs' = count_type k cs"
  unfolding count_type_def
  by (rule arg_cong [of _ _ length], rule filter_cong) (auto simp: in_all_cells)

lemma move_tags:
  assumes t: "tags_ok m" and v: "isValidPosition d"
    and m': "m' = m\<lparr>cells := (cells m)(playerPos m := (cells m (playerPos m))\<lparr>type := PATH\<rparr>,
                                   d := (cells m d)\<lparr>type := PLAYER\<rparr>),
                     playerPos := d\<rparr>"
  shows "tags_ok m'" "d \<noteq> targetPos m \<Longrightarrow> count_type TARGET (cells m') = count_type TARGET (cells m)"
proof -
  from t have pl: "\<And>p. isValidPosition p \<Longrightarrow> (type (cells m p) = PLAYER) = (p = playerPos m)"
    and tg: "\<And>p. isValidPosition p \<Longrightarrow> type (cells m p) = TARGET \<Longrightarrow> p = targetPos m"
    and vp: "isValidPosition (playerPos m)"
    and rest: "targetPos m = (MAZE_WIDTH - 2, MAZE_HEIGHT - 2)" "\<forall>p\<in>set (movePath m). isValidPosition p"
    unfolding tags_ok_def by blast+
  have ty: "\<And>p. type (cells m' p) =
      (if p = d then PLAYER else if p = playerPos m then PATH else type (cells m p))"
    by (simp add: m')
  show "tags_ok m'"
    unfolding tags_ok_def
  proof (intro conjI allI impI)
    show "isValidPosition (playerPos m')" using v by (simp add: m')
    show "targetPos m' = (MAZE_WIDTH - 2, MAZE_HEIGHT - 2)" using rest(1) by (simp add: m')
    show "\<forall>p\<in>set (movePath m'). isValidPosition p" using rest(2) by (simp add: m')
  next
    fix p assume p: "isValidPosition p"
    show "(type (cells m' p) = PLAYER) = (p = playerPos m')"
      using pl [OF p] by (simp add: ty) (simp add: m')
  next
    fix p assume p: "isValidPosition p" "type (cells m' p) = TARGET"
    then have "type (cells m p) = TARGET" by (simp add: ty split: if_splits)
    with tg [OF p(1)] show "p = targetPos m'" by (simp add: m')
  qed
  assume nt: "d \<noteq> targetPos m"
  show "count_type TARGET (cells m') = count_type TARGET (cells m)"
  proof (rule count_type_same)
    fix p assume p: "isValidPosition p"
    show "(type (cells m' p) = TARGET) = (type (cells m p) = TARGET)"
      using tg [OF p] pl [OF p] nt by (auto simp: ty)
  qed
qed

lemma tags_ok_cong:
  assumes "\<And>p. type (cells m' p) = type (cells m p)" "playerPos m' = playerPos m"
    "targetPos m' = targetPos m" "movePath m' = movePath m"
  shows "tags_ok m' = tags_ok m"
  unfolding tags_ok_def assms ..

lemma movePlayer_tags:
  assumes t: "tags_ok m"
  shows "tags_ok (snd (movePlayer dx dy m))"
    "playerPos (snd (movePlayer dx dy m)) \<noteq> targetPos m \<Longrightarrow>
       count_type TARGET (cells (snd (movePlayer dx dy m))) = count_type TARGET (cells m)"
proof -
  let ?d = "destination m dx dy"
  let ?m1 = "m\<lparr>cells := (cells m)(playerPos m := (cells m (playerPos m))\<lparr>type := PATH\<rparr>,
                                 ?d := (cells m ?d)\<lparr>type := PLAYER\<rparr>),
                   playerPos := ?d\<rparr>"
  show "tags_ok (snd (movePlayer dx dy m))"
  proof (cases "isValidPosition ?d \<and> type (cells m ?d) \<noteq> WALL")
    case True
    then have "snd (movePlayer dx dy m) = ?m1" by (simp add: movePlayer_eq)
    moreover have "tags_ok ?m1" using True by (intro move_tags(1) [OF t _ refl]) simp
    ultimately show ?thesis by simp
  next
    case False
    then have "snd (movePlayer dx dy m) = m" by (auto simp: movePlayer_eq)
    then show ?thesis using t by simp
  qed
  assume n: "playerPos (snd (movePlayer dx dy m)) \<noteq> targetPos m"
  show "count_type TARGET (cells (snd (movePlayer dx dy m))) = count_type TARGET (cells m)"
  proof (cases "isValidPosition ?d \<and> type (cells m ?d) \<noteq> WALL")
    case True
    then have e: "snd (movePlayer dx dy m) = ?m1" by (simp add: movePlayer_eq)
    with n have "?d \<noteq> targetPos m" by simp
    moreover have "isValidPosition ?d" using True by simp
    ultimately have "count_type TARGET (cells ?m1) = count_type TARGET (cells m)"
      by (intro move_tags(2) [OF t _ refl])
    then show ?thesis by (simp only: e)
  next
    case False
    then have "snd (movePlayer dx dy m) = m" by (auto simp: movePlayer_eq)
    then show ?thesis by simp
  qed
qed

lemma autoMoveStep_tags:
  assumes t: "tags_ok m" and s: "autoMoveStep m = Some (b, m')"
  shows "tags_ok m'"
    "playerPos m' \<noteq> targetPos m \<Longrightarrow> count_type TARGET (cells m') = count_type TARGET (cells m)"
proof -
  show "tags_ok m'"
  proof (cases b)
    case False
    with s have "m' = m\<lparr>autoMoving := False\<rparr>"
      by (auto simp: autoMoveStep_def Let_def split: if_splits)
    then have "tags_ok m' = tags_ok m" by (intro tags_ok_cong) simp_all
    then show ?thesis using t by simp
  next
    case True
    let ?i = "nat (currentMoveIndex m + 1)"
    let ?n = "movePath m ! ?i"
    from s True have i: "?i < length (movePath m)"
      by (auto simp: autoMoveStep_def Let_def split: if_splits)
    then have v: "isValidPosition ?n" using t by (simp add: tags_ok_def)
    let ?m1 = "m\<lparr>cells := (cells m)(playerPos m := (cells m (playerPos m))\<lparr>type := PATH\<rparr>,
                                   ?n := (cells m ?n)\<lparr>type := PLAYER\<rparr>),
                     playerPos := ?n\<rparr>"
    have t1: "tags_ok ?m1" by (rule move_tags(1) [OF t v refl])
    from s True have "m' = ?m1\<lparr>currentMoveIndex := currentMoveIndex m + 1\<rparr> \<or>
        m' = ?m1\<lparr>currentMoveIndex := currentMoveIndex m + 1, autoMoving := False\<rparr>"
      by (auto simp: autoMoveStep_def Let_def fun_eq_iff split: if_splits)
    then have "tags_ok m' = tags_ok ?m1" by (intro tags_ok_cong) auto
    then show ?thesis using t1 by simp
  qed
  assume n: "playerPos m' \<noteq> targetPos m"
  show "count_type TARGET (cells m') = count_type TARGET (cells m)"
  proof (cases b)
    case False
    with s have "m' = m\<lparr>autoMoving := False\<rparr>"
      by (auto simp: autoMoveStep_def Let_def split: if_splits)
    then show ?thesis by simp
  next
    case True
    let ?i = "nat (currentMoveIndex m + 1)"
    let ?n = "movePath m ! ?i"
    from s True have i: "?i < length (movePath m)"
      by (auto simp: autoMoveStep_def Let_def split: if_splits)
    then have v: "isValidPosition ?n" using t by (simp add: tags_ok_def)
    let ?m1 = "m\<lparr>cells := (cells m)(playerPos m := (cells m (playerPos m))\<lparr>type := PATH\<rparr>,
                                   ?n := (cells m ?n)\<lparr>type := PLAYER\<rparr>),
                     playerPos := ?n\<rparr>"
    from s True have e: "cells m' = cells ?m1 \<and> playerPos m' = ?n"
      by (auto simp: autoMoveStep_def Let_def fun_eq_iff split: if_splits)
    with n have "?n \<noteq> targetPos m" by simp
    from move_tags(2) [OF t v refl this] e show ?thesis by simp
  qed
qed

lemma findPathBFS_tags:
  assumes t: "tags_ok m" and s: "findPathBFS m = Some m'"
  shows "tags_ok m'" "count_type TARGET (cells m') = count_type TARGET (cells m)"
proof -
  note fr = findPathBFS_frame [OF s]
  have "tags_ok m' = tags_ok m" by (intro tags_ok_cong) (simp_all add: fr)
  then show "tags_ok m'" using t by simp
  show "count_type TARGET (cells m') = count_type TARGET (cells m)"
    by (rule count_type_same) (simp add: fr)
qed

lemma prepareAutoMove_tags:
  assumes t: "tags_ok m" and s: "prepareAutoMove m = Some m'"
  shows "tags_ok m'" "count_type TARGET (cells m') = count_type TARGET (cells m)"
proof -
  from s obtain m1 where m1: "findPathBFS m = Some m1"
    by (auto simp: prepareAutoMove_def split: option.splits)
  note t1 = findPathBFS_tags [OF t m1]
  from prepareAutoMove_eq [OF m1] s
  have e: "m' = (if pathFound m1
        then m1\<lparr>autoMoving := True, currentMoveIndex := 0, movePath := playerPos m # path m1\<rparr>
        else m1)" by simp
  then have c: "cells m' = cells m1" by simp
  show "count_type TARGET (cells m') = count_type TARGET (cells m)"
    using t1(2) by (simp only: c)
  show "tags_ok m'"
  proof (cases "pathFound m1")
    case False
    with e t1(1) show ?thesis by simp
  next
    case True
    from walk_valid [OF findPathBFS_found(1) [OF m1 True]]
    have "\<forall>p\<in>set (path m1). isValidPosition p" .
    moreover have "isValidPosition (playerPos m)" using t by (simp add: tags_ok_def)
    moreover have "tags_ok m' = tags_ok (m1\<lparr>movePath := playerPos m # path m1\<rparr>)"
      using e True by (intro tags_ok_cong) simp_all
    moreover have "tags_ok m1 \<Longrightarrow> \<forall>p\<in>set (playerPos m # path m1). isValidPosition p \<Longrightarrow>
        tags_ok (m1\<lparr>movePath := playerPos m # path m1\<rparr>)"
      unfolding tags_ok_def by auto
    ultimately show ?thesis using t1(1) by simp
  qed
qed

lemma example_tags: "tags_ok example_maze"
  unfolding tags_ok_def
  by (simp add: example_maze_def example_cells_def isValidPosition_def MAZE_WIDTH_def MAZE_HEIGHT_def)

subsection \<open>The generated maze\<close>

text \<open>
  The rooms are the interior cells with two odd coordinates. Two rooms are lattice
  neighbours when they are two cells apart along one axis, the offsets that
  \<open>getUnvisitedNeighbors\<close> tries; the cell between them is their midpoint, the cell
  that \<open>generateMaze\<close> opens together with the new room.
\<close>

definition room :: "Vector2i \<Rightarrow> bool" where
  "room p = (1 \<le> fst p \<and> fst p < MAZE_WIDTH - 1 \<and> 1 \<le> snd p \<and> snd p < MAZE_HEIGHT - 1 \<and>
             odd (fst p) \<and> odd (snd p))"

definition lattice_neighbours :: "Vector2i \<Rightarrow> Vector2i list" where
  "lattice_neighbours p = map (step p) gen_dirs"

definition midpoint :: "Vector2i \<Rightarrow> Vector2i \<Rightarrow> Vector2i" where
  "midpoint a b = ((fst a + fst b) div 2, (snd a + snd b) div 2)"

text \<open>
  A passage joins two lattice-neighbouring rooms whose midpoint is not WALL. \<open>linked\<close>
  follows passages from room to room; a cycle is a closed tour of at least three
  distinct rooms along passages.
\<close>

definition passage :: "grid \<Rightarrow> Vector2i \<Rightarrow> Vector2i \<Rightarrow> bool" where
  "passage cs a b =
     (room a \<and> room b \<and> b \<in> set (lattice_neighbours a) \<and> type (cs (midpoint a b)) \<noteq> WALL)"

fun linked :: "grid \<Rightarrow> Vector2i \<Rightarrow> Vector2i list \<Rightarrow> bool" where
  "linked cs a [] = True"
| "linked cs a (b # bs) = (passage cs a b \<and> linked cs b bs)"

definition cycle :: "grid \<Rightarrow> Vector2i list \<Rightarrow> bool" where
  "cycle cs rs =
     (3 \<le> length rs \<and> distinct rs \<and>
      (\<forall>i < length rs. passage cs (rs ! i) (rs ! ((i + 1) mod length rs))))"

lemma in_lattice_neighbours:
  "b \<in> set (lattice_neighbours a) \<longleftrightarrow>
     b = (fst a + 2, snd a) \<or> b = (fst a - 2, snd a) \<or> b = (fst a, snd a + 2) \<or> b = (fst a, snd a - 2)"
  by (auto simp: lattice_neighbours_def gen_dirs_def step_def)

lemma lattice_neighbours_sym: "b \<in> set (lattice_neighbours a) \<Longrightarrow> a \<in> set (lattice_neighbours b)"
  by (cases a; cases b) (auto simp: in_lattice_neighbours)

lemma midpoint_sym: "midpoint a b = midpoint b a"
  by (simp add: midpoint_def add.commute)

lemma passage_sym: "passage cs a b \<Longrightarrow> passage cs b a"
  using lattice_neighbours_sym [of b a] midpoint_sym [of a b] by (simp add: passage_def)

lemma midpoint_cases:
  assumes "b \<in> set (lattice_neighbours a)"
  shows "(b = (fst a + 2, snd a) \<and> midpoint a b = (fst a + 1, snd a)) \<or>
         (b = (fst a - 2, snd a) \<and> midpoint a b = (fst a - 1, snd a)) \<or>
         (b = (fst a, snd a + 2) \<and> midpoint a b = (fst a, snd a + 1)) \<or>
         (b = (fst a, snd a - 2) \<and> midpoint a b = (fst a, snd a - 1))"
  using assms by (auto simp: in_lattice_neighbours midpoint_def)

lemma room_valid: "room p \<Longrightarrow> isValidPosition p"
  by (simp add: room_def isValidPosition_def MAZE_WIDTH_def MAZE_HEIGHT_def)

lemma midpoint_props:
  assumes "room a" "room b" "b \<in> set (lattice_neighbours a)"
  shows "isValidPosition (midpoint a b)" "\<not> room (midpoint a b)"
    "midpoint a b \<in> set (neighbours a)" "b \<in> set (neighbours (midpoint a b))"
  using midpoint_cases [OF assms(3)] assms(1,2)
  by (auto simp: room_def isValidPosition_def MAZE_WIDTH_def MAZE_HEIGHT_def neighbours_def
      directions_def step_def)

lemma midpoint_ends:
  assumes "room a" "b \<in> set (lattice_neighbours a)" "midpoint a b = m"
  shows "(even (fst m) \<and> snd a = snd m \<and> snd b = snd m \<and>
          ((fst a = fst m - 1 \<and> fst b = fst m + 1) \<or> (fst a = fst m + 1 \<and> fst b = fst m - 1))) \<or>
         (odd (fst m) \<and> fst a = fst m \<and> fst b = fst m \<and>
          ((snd a = snd m - 1 \<and> snd b = snd m + 1) \<or> (snd a = snd m + 1 \<and> snd b = snd m - 1)))"
proof -
  have o: "odd (fst a)" using assms(1) by (simp add: room_def)
  from midpoint_cases [OF assms(2)] show ?thesis
  proof (elim disjE conjE)
    assume b: "b = (fst a + 2, snd a)" and "midpoint a b = (fst a + 1, snd a)"
    with assms(3) have m: "m = (fst a + 1, snd a)" by simp
    show ?thesis using o by (simp add: m b)
  next
    assume b: "b = (fst a - 2, snd a)" and "midpoint a b = (fst a - 1, snd a)"
    with assms(3) have m: "m = (fst a - 1, snd a)" by simp
    show ?thesis using o by (simp add: m b)
  next
    assume b: "b = (fst a, snd a + 2)" and "midpoint a b = (fst a, snd a + 1)"
    with assms(3) have m: "m = (fst a, snd a + 1)" by simp
    show ?thesis using o by (simp add: m b)
  next
    assume b: "b = (fst a, snd a - 2)" and "midpoint a b = (fst a, snd a - 1)"
    with assms(3) have m: "m = (fst a, snd a - 1)" by simp
    show ?thesis using o by (simp add: m b)
  qed
qed

lemma midpoint_determines:
  assumes "room a" "b \<in> set (lattice_neighbours a)"
    and "room a'" "b' \<in> set (lattice_neighbours a')"
    and "midpoint a b = midpoint a' b'"
  shows "(a = a' \<and> b = b') \<or> (a = b' \<and> b = a')"
  using midpoint_ends [OF assms(1,2) refl] midpoint_ends [OF assms(3,4) assms(5) [symmetric]]
  by (auto simp: prod_eq_iff)

lemma in_candidates:
  "n \<in> set (unvisited_candidates cs (fst c) (snd c)) \<longleftrightarrow>
     n \<in> set (lattice_neighbours c) \<and> 1 \<le> fst n \<and> fst n < MAZE_WIDTH - 1 \<and>
     1 \<le> snd n \<and> snd n < MAZE_HEIGHT - 1 \<and> \<not> visited (cs n)"
proof -
  have "unvisited_candidates cs (fst c) (snd c) =
      filter (\<lambda>n. fst n \<ge> 1 \<and> fst n < MAZE_WIDTH - 1 \<and> snd n \<ge> 1 \<and> snd n < MAZE_HEIGHT - 1 \<and>
                    \<not> visited (cs n)) (lattice_neighbours c)"
    unfolding unvisited_candidates_def lattice_neighbours_def step_def ..
  then show ?thesis by (simp only: set_filter) blast
qed

lemma candidate_room:
  assumes "room c" "n \<in> set (unvisited_candidates cs (fst c) (snd c))"
  shows "room n" "n \<in> set (lattice_neighbours c)" "\<not> visited (cs n)"
proof -
  from assms(2) have n: "n \<in> set (lattice_neighbours c)" "1 \<le> fst n" "fst n < MAZE_WIDTH - 1"
    "1 \<le> snd n" "snd n < MAZE_HEIGHT - 1" "\<not> visited (cs n)"
    unfolding in_candidates by blast+
  show "n \<in> set (lattice_neighbours c)" "\<not> visited (cs n)" by fact+
  have "odd (fst c)" "odd (snd c)" using assms(1) by (simp_all add: room_def)
  then have "odd (fst n)" "odd (snd n)"
    using n(1) by (auto simp: in_lattice_neighbours)
  with n(2-5) show "room n" by (simp add: room_def)
qed

lemma no_candidates:
  assumes "unvisited_candidates cs (fst c) (snd c) = []" "b \<in> set (lattice_neighbours c)" "room b"
  shows "visited (cs b)"
proof (rule ccontr)
  assume "\<not> visited (cs b)"
  with assms(2,3) have "b \<in> set (unvisited_candidates cs (fst c) (snd c))"
    by (simp only: in_candidates) (simp add: room_def)
  with assms(1) show False by simp
qed

lemma carve_at:
  "type (carve cs c n p) = (if p = n \<or> p = midpoint c n then PATH else type (cs p))"
  by (simp add: carve_def Let_def midpoint_def)


text \<open>
  The number of visited cells, and the number of opened cells that are not rooms:
  the carved connections.
\<close>

definition count_visited :: "grid \<Rightarrow> nat" where
  "count_visited cs = length (filter (\<lambda>p. visited (cs p)) all_cells)"

definition count_links :: "grid \<Rightarrow> nat" where
  "count_links cs = length (filter (\<lambda>p. type (cs p) \<noteq> WALL \<and> \<not> room p) all_cells)"

text \<open>
  The loop invariant of \<open>generateMaze\<close>, for the grid \<open>cs\<close> and the stack \<open>st\<close>. The
  function \<open>t\<close> is not part of the program: it records the order in which the rooms were
  visited. Every room but the first has exactly one passage to a room visited earlier,
  which is why the passages never close a cycle.
\<close>

definition gen_inv :: "grid \<Rightarrow> Vector2i list \<Rightarrow> (Vector2i \<Rightarrow> nat) \<Rightarrow> bool" where
  "gen_inv cs st t =
     ((\<forall>p. isValidPosition p \<and> visited (cs p) \<longrightarrow> room p \<and> type (cs p) \<noteq> WALL) \<and>
      (\<forall>p. isValidPosition p \<and> type (cs p) \<noteq> WALL \<and> \<not> room p \<longrightarrow>
         (\<exists>a b. room a \<and> room b \<and> visited (cs a) \<and> visited (cs b) \<and>
                b \<in> set (lattice_neighbours a) \<and> p = midpoint a b)) \<and>
      visited (cs (1, 1)) \<and> (\<forall>p\<in>set st. room p \<and> visited (cs p)) \<and>
      (\<forall>a. room a \<and> visited (cs a) \<and> a \<notin> set st \<longrightarrow>
         (\<forall>b\<in>set (lattice_neighbours a). room b \<longrightarrow> visited (cs b))) \<and>
      (\<forall>a. room a \<and> visited (cs a) \<longrightarrow> (\<exists>rs. linked cs (1, 1) rs \<and> last ((1, 1) # rs) = a)) \<and>
      Suc (count_links cs) = count_visited cs \<and>
      (\<forall>a. room a \<and> visited (cs a) \<longrightarrow> t a < count_visited cs) \<and>
      (\<forall>a b. room a \<and> room b \<and> visited (cs a) \<and> visited (cs b) \<and> t a = t b \<longrightarrow> a = b) \<and>
      (\<forall>a b c. passage cs a b \<and> passage cs a c \<and> t b < t a \<and> t c < t a \<longrightarrow> b = c))"

lemma filter_one_more:
  "distinct xs \<Longrightarrow> q \<in> set xs \<Longrightarrow> \<not> P q \<Longrightarrow>
     length (filter (\<lambda>p. p = q \<or> P p) xs) = Suc (length (filter P xs))"
proof (induction xs)
  case Nil
  then show ?case by simp
next
  case (Cons a xs)
  show ?case
  proof (cases "a = q")
    case True
    then have "q \<notin> set xs" using Cons.prems(1) by simp
    then have "filter (\<lambda>p. p = q \<or> P p) xs = filter P xs"
      by (intro filter_cong) auto
    then show ?thesis using True Cons.prems(3) by simp
  next
    case False
    then show ?thesis using Cons.IH Cons.prems by auto
  qed
qed

lemma linked_append: "linked cs a (xs @ ys) = (linked cs a xs \<and> linked cs (last (a # xs)) ys)"
  by (induction xs arbitrary: a) auto

lemma linked_mono:
  assumes "\<And>a b. passage cs a b \<Longrightarrow> passage cs' a b"
  shows "linked cs a rs \<Longrightarrow> linked cs' a rs"
  by (induction rs arbitrary: a) (use assms in auto)

lemma passage_visited:
  assumes g2: "\<forall>p. isValidPosition p \<and> type (cs p) \<noteq> WALL \<and> \<not> room p \<longrightarrow>
         (\<exists>a b. room a \<and> room b \<and> visited (cs a) \<and> visited (cs b) \<and>
                b \<in> set (lattice_neighbours a) \<and> p = midpoint a b)"
    and p: "passage cs a b"
  shows "visited (cs a) \<and> visited (cs b)"
proof -
  from p have r: "room a" "room b" "b \<in> set (lattice_neighbours a)" "type (cs (midpoint a b)) \<noteq> WALL"
    by (simp_all add: passage_def)
  from midpoint_props(1,2) [OF r(1-3)] r(4) g2
  obtain a' b' where ab: "room a'" "room b'" "visited (cs a')" "visited (cs b')"
    "b' \<in> set (lattice_neighbours a')" "midpoint a b = midpoint a' b'" by blast
  from midpoint_determines [OF r(1,3) ab(1,5,6)] ab(3,4) show ?thesis by auto
qed


lemma gen_inv_carve:
  assumes inv: "gen_inv cs (c # st) t" and cand: "n \<in> set (unvisited_candidates cs (fst c) (snd c))"
  shows "gen_inv (carve cs c n) (n # c # st) (t(n := count_visited cs))"
proof -
  let ?cs = "carve cs c n" and ?m = "midpoint c n" and ?t = "t(n := count_visited cs)"
  from inv have
    g1: "\<forall>p. isValidPosition p \<and> visited (cs p) \<longrightarrow> room p \<and> type (cs p) \<noteq> WALL" and
    g2: "\<forall>p. isValidPosition p \<and> type (cs p) \<noteq> WALL \<and> \<not> room p \<longrightarrow>
         (\<exists>a b. room a \<and> room b \<and> visited (cs a) \<and> visited (cs b) \<and>
                b \<in> set (lattice_neighbours a) \<and> p = midpoint a b)" and
    g3: "visited (cs (1, 1))" "\<forall>p\<in>set (c # st). room p \<and> visited (cs p)" and
    g4: "\<forall>a. room a \<and> visited (cs a) \<and> a \<notin> set (c # st) \<longrightarrow>
         (\<forall>b\<in>set (lattice_neighbours a). room b \<longrightarrow> visited (cs b))" and
    g5: "\<forall>a. room a \<and> visited (cs a) \<longrightarrow> (\<exists>rs. linked cs (1, 1) rs \<and> last ((1, 1) # rs) = a)" and
    g6: "Suc (count_links cs) = count_visited cs" and
    g7: "\<forall>a. room a \<and> visited (cs a) \<longrightarrow> t a < count_visited cs" and
    g8: "\<forall>a b. room a \<and> room b \<and> visited (cs a) \<and> visited (cs b) \<and> t a = t b \<longrightarrow> a = b" and
    g9: "\<forall>a b c. passage cs a b \<and> passage cs a c \<and> t b < t a \<and> t c < t a \<longrightarrow> b = c"
    unfolding gen_inv_def by - ((elim conjE, assumption)+)
  have rc: "room c" and vc: "visited (cs c)" using g3(2) by simp_all
  note cr = candidate_room [OF rc cand]
  note mp = midpoint_props [OF rc cr(1,2)]
  have vn: "isValidPosition n" using cr(1) by (rule room_valid)
  have vis: "\<And>p. visited (?cs p) = (p = n \<or> visited (cs p))" by (rule visited_carve)
  have ty: "\<And>p. (type (?cs p) \<noteq> WALL) = (p = n \<or> p = ?m \<or> type (cs p) \<noteq> WALL)"
    by (simp add: carve_at)
  have mn: "?m \<noteq> n" using mp(2) cr(1) by auto
  have mw: "type (cs ?m) = WALL"
  proof (rule ccontr)
    assume "type (cs ?m) \<noteq> WALL"
    with g2 mp(1,2) obtain a b where ab: "room a" "room b" "visited (cs a)" "visited (cs b)"
      "b \<in> set (lattice_neighbours a)" "?m = midpoint a b" by blast
    from midpoint_determines [OF rc cr(2) ab(1,5,6)] ab(3,4) cr(3) show False by auto
  qed
  have pv: "\<And>a b. passage cs a b \<Longrightarrow> visited (cs a) \<and> visited (cs b)"
    by (rule passage_visited [OF g2])
  have pas: "\<And>a b. passage ?cs a b = (passage cs a b \<or> (a = c \<and> b = n) \<or> (a = n \<and> b = c))"
  proof -
    fix a b
    show "passage ?cs a b = (passage cs a b \<or> (a = c \<and> b = n) \<or> (a = n \<and> b = c))"
    proof
      assume p: "passage ?cs a b"
      then have r: "room a" "room b" "b \<in> set (lattice_neighbours a)"
        "type (?cs (midpoint a b)) \<noteq> WALL" by (simp_all add: passage_def)
      from midpoint_props(2) [OF r(1-3)] cr(1) have "midpoint a b \<noteq> n" by auto
      with r(4) have "midpoint a b = ?m \<or> type (cs (midpoint a b)) \<noteq> WALL" by (simp add: ty)
      then show "passage cs a b \<or> (a = c \<and> b = n) \<or> (a = n \<and> b = c)"
      proof
        assume "midpoint a b = ?m"
        from midpoint_determines [OF r(1,3) rc cr(2) this] show ?thesis by blast
      next
        assume "type (cs (midpoint a b)) \<noteq> WALL"
        with r(1-3) show ?thesis by (simp add: passage_def)
      qed
    next
      assume "passage cs a b \<or> (a = c \<and> b = n) \<or> (a = n \<and> b = c)"
      then show "passage ?cs a b"
      proof (elim disjE conjE)
        assume "passage cs a b"
        then show ?thesis by (simp add: passage_def ty)
      next
        assume "a = c" "b = n"
        then show ?thesis using rc cr(1,2) by (simp add: passage_def ty)
      next
        assume "a = n" "b = c"
        then show ?thesis
          using rc cr(1,2) lattice_neighbours_sym [OF cr(2)] midpoint_sym [of n c]
          by (simp add: passage_def ty)
      qed
    qed
  qed
  have c1: "\<forall>p. isValidPosition p \<and> visited (?cs p) \<longrightarrow> room p \<and> type (?cs p) \<noteq> WALL"
    using g1 cr(1) by (auto simp: vis ty)
  have c2: "\<forall>p. isValidPosition p \<and> type (?cs p) \<noteq> WALL \<and> \<not> room p \<longrightarrow>
         (\<exists>a b. room a \<and> room b \<and> visited (?cs a) \<and> visited (?cs b) \<and>
                b \<in> set (lattice_neighbours a) \<and> p = midpoint a b)"
  proof (intro allI impI)
    fix p assume p: "isValidPosition p \<and> type (?cs p) \<noteq> WALL \<and> \<not> room p"
    then have "p \<noteq> n" using cr(1) by auto
    with p have "p = ?m \<or> type (cs p) \<noteq> WALL" by (simp add: ty)
    then show "\<exists>a b. room a \<and> room b \<and> visited (?cs a) \<and> visited (?cs b) \<and>
                b \<in> set (lattice_neighbours a) \<and> p = midpoint a b"
    proof
      assume "p = ?m"
      then have "room c \<and> room n \<and> visited (?cs c) \<and> visited (?cs n) \<and>
          n \<in> set (lattice_neighbours c) \<and> p = midpoint c n"
        using rc cr(1,2) vc by (simp add: vis)
      then show ?thesis by blast
    next
      assume "type (cs p) \<noteq> WALL"
      with p g2 obtain a b where "room a" "room b" "visited (cs a)" "visited (cs b)"
        "b \<in> set (lattice_neighbours a)" "p = midpoint a b" by blast
      then have "room a \<and> room b \<and> visited (?cs a) \<and> visited (?cs b) \<and>
          b \<in> set (lattice_neighbours a) \<and> p = midpoint a b"
        by (simp add: vis)
      then show ?thesis by blast
    qed
  qed
  have c3: "visited (?cs (1, 1))" "\<forall>p\<in>set (n # c # st). room p \<and> visited (?cs p)"
    using g3 cr(1) by (auto simp: vis)
  have c4: "\<forall>a. room a \<and> visited (?cs a) \<and> a \<notin> set (n # c # st) \<longrightarrow>
         (\<forall>b\<in>set (lattice_neighbours a). room b \<longrightarrow> visited (?cs b))"
    using g4 by (auto simp: vis)
  have lm: "\<And>a rs. linked cs a rs \<Longrightarrow> linked ?cs a rs"
    by (rule linked_mono [of cs]) (simp add: pas)
  have c5: "\<forall>a. room a \<and> visited (?cs a) \<longrightarrow> (\<exists>rs. linked ?cs (1, 1) rs \<and> last ((1, 1) # rs) = a)"
  proof (intro allI impI)
    fix a assume a: "room a \<and> visited (?cs a)"
    show "\<exists>rs. linked ?cs (1, 1) rs \<and> last ((1, 1) # rs) = a"
    proof (cases "a = n")
      case True
      from g5 rc vc obtain rs where rs: "linked cs (1, 1) rs" "last ((1, 1) # rs) = c" by blast
      have "linked ?cs (1, 1) (rs @ [n])"
        using lm [OF rs(1)] rs(2) by (simp only: linked_append linked.simps pas) simp
      moreover have "last ((1, 1) # rs @ [n]) = a" using True by simp
      ultimately show ?thesis by blast
    next
      case False
      with a have "visited (cs a)" by (simp add: vis)
      with a g5 obtain rs where "linked cs (1, 1) rs" "last ((1, 1) # rs) = a" by blast
      then show ?thesis using lm by blast
    qed
  qed
  have cl: "count_links ?cs = Suc (count_links cs)"
  proof -
    have "filter (\<lambda>p. type (?cs p) \<noteq> WALL \<and> \<not> room p) all_cells =
        filter (\<lambda>p. p = ?m \<or> (type (cs p) \<noteq> WALL \<and> \<not> room p)) all_cells"
      by (rule filter_cong) (use cr(1) mp(2) in \<open>auto simp: ty\<close>)
    moreover have "length (filter (\<lambda>p. p = ?m \<or> (type (cs p) \<noteq> WALL \<and> \<not> room p)) all_cells) =
        Suc (length (filter (\<lambda>p. type (cs p) \<noteq> WALL \<and> \<not> room p) all_cells))"
      by (rule filter_one_more [OF distinct_all_cells]) (use mp(1) mw in \<open>simp_all add: in_all_cells\<close>)
    ultimately show ?thesis by (simp add: count_links_def)
  qed
  have cv: "count_visited ?cs = Suc (count_visited cs)"
  proof -
    have "length (filter (\<lambda>p. p = n \<or> visited (cs p)) all_cells) =
        Suc (length (filter (\<lambda>p. visited (cs p)) all_cells))"
      by (rule filter_one_more [OF distinct_all_cells]) (use vn cr(3) in \<open>simp_all add: in_all_cells\<close>)
    then show ?thesis by (simp add: count_visited_def vis)
  qed
  have c6: "Suc (count_links ?cs) = count_visited ?cs" using g6 cl cv by simp
  have c7: "\<forall>a. room a \<and> visited (?cs a) \<longrightarrow> ?t a < count_visited ?cs"
    using g7 by (auto simp: vis cv less_Suc_eq)
  have c8: "\<forall>a b. room a \<and> room b \<and> visited (?cs a) \<and> visited (?cs b) \<and> ?t a = ?t b \<longrightarrow> a = b"
  proof (intro allI impI)
    fix a b assume h: "room a \<and> room b \<and> visited (?cs a) \<and> visited (?cs b) \<and> ?t a = ?t b"
    show "a = b"
    proof (cases "a = n \<or> b = n")
      case True
      have lt: "\<And>x. room x \<Longrightarrow> visited (cs x) \<Longrightarrow> t x \<noteq> count_visited cs"
        using g7 by fastforce
      show ?thesis
      proof (rule ccontr)
        assume ne: "a \<noteq> b"
        from True show False
        proof
          assume an: "a = n"
          with ne h have "room b" "visited (cs b)" "t b = count_visited cs"
            by (simp_all add: vis)
          with lt show False by blast
        next
          assume bn: "b = n"
          with ne h have "room a" "visited (cs a)" "t a = count_visited cs"
            by (simp_all add: vis)
          with lt show False by blast
        qed
      qed
    next
      case False
      with h have "room a \<and> room b \<and> visited (cs a) \<and> visited (cs b) \<and> t a = t b"
        by (simp add: vis)
      with g8 show ?thesis by blast
    qed
  qed
  have c9: "\<forall>a b d. passage ?cs a b \<and> passage ?cs a d \<and> ?t b < ?t a \<and> ?t d < ?t a \<longrightarrow> b = d"
  proof (intro allI impI)
    fix a b d assume h: "passage ?cs a b \<and> passage ?cs a d \<and> ?t b < ?t a \<and> ?t d < ?t a"
    have old1: "\<And>y. \<not> passage cs n y" using pv cr(3) by blast
    have old2: "\<And>x. \<not> passage cs x n" using pv cr(3) by blast
    have tc: "t c < count_visited cs" using g7 rc vc by blast
    from h have pb: "passage cs a b \<or> (a = c \<and> b = n) \<or> (a = n \<and> b = c)"
      and pd: "passage cs a d \<or> (a = c \<and> d = n) \<or> (a = n \<and> d = c)"
      by (simp_all only: pas)
    have cn: "c \<noteq> n" using vc cr(3) by auto
    show "b = d"
    proof (cases "a = n")
      case True
      with pb old1 cn have "b = c" by blast
      moreover from True pd old1 cn have "d = c" by blast
      ultimately show ?thesis by simp
    next
      case False
      have nb: "b \<noteq> n"
      proof
        assume bn: "b = n"
        with pb False old2 have "a = c" by blast
        moreover from h bn False have "count_visited cs < t a" by simp
        ultimately show False using tc by simp
      qed
      have nd: "d \<noteq> n"
      proof
        assume dn: "d = n"
        with pd False old2 have "a = c" by blast
        moreover from h dn False have "count_visited cs < t a" by simp
        ultimately show False using tc by simp
      qed
      from pb False nb have 1: "passage cs a b" by blast
      from pd False nd have 2: "passage cs a d" by blast
      from h False nb nd have 3: "t b < t a" "t d < t a" by simp_all
      from g9 1 2 3 show ?thesis by blast
    qed
  qed
  show ?thesis
    unfolding gen_inv_def by (intro conjI c1 c2 c3 c4 c5 c6 c7 c8 c9)
qed


lemma gen_inv_pop:
  assumes inv: "gen_inv cs (c # st) t" and none: "unvisited_candidates cs (fst c) (snd c) = []"
  shows "gen_inv cs st t"
proof -
  from inv have
    g1: "\<forall>p. isValidPosition p \<and> visited (cs p) \<longrightarrow> room p \<and> type (cs p) \<noteq> WALL" and
    g2: "\<forall>p. isValidPosition p \<and> type (cs p) \<noteq> WALL \<and> \<not> room p \<longrightarrow>
         (\<exists>a b. room a \<and> room b \<and> visited (cs a) \<and> visited (cs b) \<and>
                b \<in> set (lattice_neighbours a) \<and> p = midpoint a b)" and
    g3: "visited (cs (1, 1))" "\<forall>p\<in>set (c # st). room p \<and> visited (cs p)" and
    g4: "\<forall>a. room a \<and> visited (cs a) \<and> a \<notin> set (c # st) \<longrightarrow>
         (\<forall>b\<in>set (lattice_neighbours a). room b \<longrightarrow> visited (cs b))" and
    g5: "\<forall>a. room a \<and> visited (cs a) \<longrightarrow> (\<exists>rs. linked cs (1, 1) rs \<and> last ((1, 1) # rs) = a)" and
    g6: "Suc (count_links cs) = count_visited cs" and
    g7: "\<forall>a. room a \<and> visited (cs a) \<longrightarrow> t a < count_visited cs" and
    g8: "\<forall>a b. room a \<and> room b \<and> visited (cs a) \<and> visited (cs b) \<and> t a = t b \<longrightarrow> a = b" and
    g9: "\<forall>a b c. passage cs a b \<and> passage cs a c \<and> t b < t a \<and> t c < t a \<longrightarrow> b = c"
    unfolding gen_inv_def by - ((elim conjE, assumption)+)
  have c3: "\<forall>p\<in>set st. room p \<and> visited (cs p)" using g3(2) by simp
  have c4: "\<forall>a. room a \<and> visited (cs a) \<and> a \<notin> set st \<longrightarrow>
         (\<forall>b\<in>set (lattice_neighbours a). room b \<longrightarrow> visited (cs b))"
  proof (intro allI impI ballI)
    fix a b assume a: "room a \<and> visited (cs a) \<and> a \<notin> set st"
      and b: "b \<in> set (lattice_neighbours a)" "room b"
    show "visited (cs b)"
    proof (cases "a = c")
      case True
      with none b show ?thesis by (simp add: no_candidates)
    next
      case False
      with a have "room a \<and> visited (cs a) \<and> a \<notin> set (c # st)" by simp
      with g4 b show ?thesis by blast
    qed
  qed
  show ?thesis
    unfolding gen_inv_def by (intro conjI g1 g2 g3(1) c3 c4 g5 g6 g7 g8 g9)
qed

lemma room_corners: "room (1, 1)" "room (MAZE_WIDTH - 2, MAZE_HEIGHT - 2)"
  by (simp_all add: room_def MAZE_WIDTH_def MAZE_HEIGHT_def)

lemma gen_inv_init: "gen_inv (start_cells cs0) [(1, 1)] (\<lambda>p. 0)"
proof -
  let ?cs = "start_cells cs0"
  have vis: "\<And>p. isValidPosition p \<Longrightarrow> visited (?cs p) = (p = (1, 1))"
    by (simp add: start_cells_at)
  have ty: "\<And>p. isValidPosition p \<Longrightarrow>
      (type (?cs p) \<noteq> WALL) = (p = (1, 1) \<or> p = (MAZE_WIDTH - 2, MAZE_HEIGHT - 2))"
    by (simp add: start_cells_at)
  have rv: "\<And>p. room p \<Longrightarrow> visited (?cs p) = (p = (1, 1))"
    using vis room_valid by blast
  have wall: "\<And>p. isValidPosition p \<Longrightarrow> \<not> room p \<Longrightarrow> type (?cs p) = WALL"
    using ty room_corners by blast
  have nop: "\<And>a b. \<not> passage ?cs a b"
  proof
    fix a b assume "passage ?cs a b"
    then have r: "room a" "room b" "b \<in> set (lattice_neighbours a)"
      "type (?cs (midpoint a b)) \<noteq> WALL" by (simp_all add: passage_def)
    from midpoint_props(1,2) [OF r(1-3)] wall r(4) show False by blast
  qed
  have c1: "\<forall>p. isValidPosition p \<and> visited (?cs p) \<longrightarrow> room p \<and> type (?cs p) \<noteq> WALL"
    using vis ty room_corners(1) by auto
  have c2: "\<forall>p. isValidPosition p \<and> type (?cs p) \<noteq> WALL \<and> \<not> room p \<longrightarrow>
         (\<exists>a b. room a \<and> room b \<and> visited (?cs a) \<and> visited (?cs b) \<and>
                b \<in> set (lattice_neighbours a) \<and> p = midpoint a b)"
    using wall by blast
  have c3: "visited (?cs (1, 1))" "\<forall>p\<in>set [(1, 1)]. room p \<and> visited (?cs p)"
    using vis [OF valid_corners(1)] room_corners(1) by simp_all
  have c4: "\<forall>a. room a \<and> visited (?cs a) \<and> a \<notin> set [(1, 1)] \<longrightarrow>
         (\<forall>b\<in>set (lattice_neighbours a). room b \<longrightarrow> visited (?cs b))"
    using rv by auto
  have c5: "\<forall>a. room a \<and> visited (?cs a) \<longrightarrow> (\<exists>rs. linked ?cs (1, 1) rs \<and> last ((1, 1) # rs) = a)"
  proof (intro allI impI)
    fix a assume "room a \<and> visited (?cs a)"
    then have "a = (1, 1)" using rv by blast
    then have "linked ?cs (1, 1) [] \<and> last ((1, 1) # []) = a" by simp
    then show "\<exists>rs. linked ?cs (1, 1) rs \<and> last ((1, 1) # rs) = a" by blast
  qed
  have cv: "count_visited ?cs = 1"
    unfolding count_visited_def
    by (rule filter_single [OF distinct_all_cells, of "(1, 1)"])
      (use valid_corners(1) vis in \<open>simp_all add: in_all_cells\<close>)
  have "filter (\<lambda>p. type (?cs p) \<noteq> WALL \<and> \<not> room p) all_cells = filter (\<lambda>p. False) all_cells"
    by (rule filter_cong) (use wall in \<open>auto simp: in_all_cells\<close>)
  then have cl: "count_links ?cs = 0" by (simp add: count_links_def)
  have c6: "Suc (count_links ?cs) = count_visited ?cs" using cv cl by simp
  have c7: "\<forall>a. room a \<and> visited (?cs a) \<longrightarrow> (\<lambda>p. 0 :: nat) a < count_visited ?cs"
    using cv by simp
  have c8: "\<forall>a b. room a \<and> room b \<and> visited (?cs a) \<and> visited (?cs b) \<and>
      (\<lambda>p. 0 :: nat) a = (\<lambda>p. 0 :: nat) b \<longrightarrow> a = b"
    using rv by blast
  have c9: "\<forall>a b d. passage ?cs a b \<and> passage ?cs a d \<and>
      (\<lambda>p. 0 :: nat) b < (\<lambda>p. 0 :: nat) a \<and> (\<lambda>p. 0 :: nat) d < (\<lambda>p. 0 :: nat) a \<longrightarrow> b = d"
    by simp
  show ?thesis
    unfolding gen_inv_def by (intro conjI c1 c2 c3 c4 c5 c6 c7 c8 c9)
qed

lemma gen_loop_inv:
  "gen_inv cs st t \<Longrightarrow> gen_loop st cs r = (cs', r') \<Longrightarrow> \<exists>t'. gen_inv cs' [] t'"
proof (induction st cs r arbitrary: t rule: gen_loop.induct)
  case (1 cs r)
  then show ?case by auto
next
  case (2 current stack cs r)
  obtain neighbors r1 where g: "getUnvisitedNeighbors cs r (fst current) (snd current) = (neighbors, r1)"
    by (cases "getUnvisitedNeighbors cs r (fst current) (snd current)")
  have sn: "set neighbors = set (unvisited_candidates cs (fst current) (snd current))"
    using set_shuffle [of r "unvisited_candidates cs (fst current) (snd current)"] g
    by (simp add: getUnvisitedNeighbors_def)
  show ?case
  proof (cases "neighbors \<noteq> []")
    case True
    obtain i r2 where u: "uniform_int r1 0 (length neighbors - 1) = (i, r2)"
      by (cases "uniform_int r1 0 (length neighbors - 1)")
    from "2.prems"(2) g True u
    have e: "gen_loop (neighbors ! i # current # stack) (carve cs current (neighbors ! i)) r2 = (cs', r')"
      by simp
    have n: "neighbors ! i \<in> set (unvisited_candidates cs (fst current) (snd current))"
      by (rule chosen_neighbor [OF g True u])
    show ?thesis
      by (rule "2.IH"(1) [OF g [symmetric] True u [symmetric] gen_inv_carve [OF "2.prems"(1) n] e])
  next
    case False
    from "2.prems"(2) g False have e: "gen_loop stack cs r1 = (cs', r')" by simp
    from False sn have "unvisited_candidates cs (fst current) (snd current) = []" by simp
    from gen_inv_pop [OF "2.prems"(1) this] show ?thesis
      by (rule "2.IH"(2) [OF g [symmetric] False _ e])
  qed
qed


lemma rooms_closed:
  assumes start: "V (1, 1)"
    and cl: "\<And>a b. room a \<Longrightarrow> V a \<Longrightarrow> b \<in> set (lattice_neighbours a) \<Longrightarrow> room b \<Longrightarrow> V b"
    and r: "room p"
  shows "V p"
proof -
  have rm: "\<And>i j. i \<le> 9 \<Longrightarrow> j \<le> 9 \<Longrightarrow> room (1 + 2 * int i, 1 + 2 * int j)"
    by (simp add: room_def MAZE_WIDTH_def MAZE_HEIGHT_def)
  have row: "i \<le> 9 \<Longrightarrow> V (1 + 2 * int i, 1 + 2 * int 0)" for i
  proof (induction i)
    case 0
    show ?case using start by simp
  next
    case (Suc i)
    then have v: "V (1 + 2 * int i, 1 + 2 * int 0)" by simp
    have "room (1 + 2 * int i, 1 + 2 * int 0)"
      by (rule rm) (use Suc.prems in simp_all)
    moreover have "room (1 + 2 * int (Suc i), 1 + 2 * int 0)"
      by (rule rm) (use Suc.prems in simp_all)
    moreover have "(1 + 2 * int (Suc i), 1 + 2 * int 0) \<in>
        set (lattice_neighbours (1 + 2 * int i, 1 + 2 * int 0))"
      by (simp add: in_lattice_neighbours)
    ultimately show ?case using cl v by blast
  qed
  have col: "i \<le> 9 \<Longrightarrow> j \<le> 9 \<Longrightarrow> V (1 + 2 * int i, 1 + 2 * int j)" for i j
  proof (induction j)
    case 0
    then show ?case by (simp only: row)
  next
    case (Suc j)
    then have v: "V (1 + 2 * int i, 1 + 2 * int j)" by simp
    have "room (1 + 2 * int i, 1 + 2 * int j)"
      by (rule rm) (use Suc.prems in simp_all)
    moreover have "room (1 + 2 * int i, 1 + 2 * int (Suc j))"
      by (rule rm) (use Suc.prems in simp_all)
    moreover have "(1 + 2 * int i, 1 + 2 * int (Suc j)) \<in>
        set (lattice_neighbours (1 + 2 * int i, 1 + 2 * int j))"
      by (simp add: in_lattice_neighbours)
    ultimately show ?case using cl v by blast
  qed
  from r have b: "1 \<le> fst p" "fst p < 20" "1 \<le> snd p" "snd p < 20" "odd (fst p)" "odd (snd p)"
    by (simp_all add: room_def MAZE_WIDTH_def MAZE_HEIGHT_def)
  from b(5) obtain x where x: "fst p = 2 * x + 1" by (elim oddE)
  from b(6) obtain y where y: "snd p = 2 * y + 1" by (elim oddE)
  from x y b(1-4) have xy: "0 \<le> x" "x \<le> 9" "0 \<le> y" "y \<le> 9" by simp_all
  have "p = (1 + 2 * int (nat x), 1 + 2 * int (nat y))"
    using x y xy by (simp add: prod_eq_iff)
  moreover have "nat x \<le> 9" "nat y \<le> 9" using xy by simp_all
  ultimately show ?thesis using col by metis
qed

lemma linked_walk:
  assumes w: "\<And>b. room b \<Longrightarrow> walkable cs b"
  shows "linked cs a rs \<Longrightarrow> \<exists>ps. walk cs a ps \<and> last (a # ps) = last (a # rs)"
proof (induction rs arbitrary: a)
  case Nil
  have "walk cs a [] \<and> last (a # []) = last (a # [])" by simp
  then show ?case by blast
next
  case (Cons b bs)
  then have p: "passage cs a b" and l: "linked cs b bs" by simp_all
  from p have r: "room a" "room b" "b \<in> set (lattice_neighbours a)"
    "type (cs (midpoint a b)) \<noteq> WALL" by (simp_all add: passage_def)
  note mp = midpoint_props [OF r(1-3)]
  from Cons.IH [OF l] obtain ps where ps: "walk cs b ps" "last (b # ps) = last (b # bs)" by blast
  have "walk cs a (midpoint a b # b # ps)"
    using mp(1,3,4) r(4) w [OF r(2)] ps(1) by (simp add: walkable_def)
  moreover have "last (a # midpoint a b # b # ps) = last (a # b # bs)" using ps(2) by simp
  ultimately show ?case by blast
qed

lemma cycle_index:
  fixes k L :: nat
  assumes "k < L" "3 \<le> L"
  shows "(k + L - 1) mod L \<noteq> k" "(k + 1) mod L \<noteq> k" "(k + L - 1) mod L \<noteq> (k + 1) mod L"
    "((k + L - 1) mod L + 1) mod L = k"
proof -
  have p: "(k + L - 1) mod L = (if k = 0 then L - 1 else k - 1)"
  proof (cases "k = 0")
    case True
    then show ?thesis using assms by simp
  next
    case False
    then have "k + L - 1 = (k - 1) + L" by simp
    then have "(k + L - 1) mod L = (k - 1) mod L" by (simp only: mod_add_self2)
    then show ?thesis using False assms by simp
  qed
  have s: "(k + 1) mod L = (if k + 1 = L then 0 else k + 1)"
    using assms by (simp add: mod_if)
  show "(k + L - 1) mod L \<noteq> k" unfolding p using assms by auto
  show "(k + 1) mod L \<noteq> k" unfolding s using assms by auto
  show "(k + L - 1) mod L \<noteq> (k + 1) mod L" unfolding p s using assms by auto
  show "((k + L - 1) mod L + 1) mod L = k" unfolding p using assms by auto
qed

lemma no_cycle:
  fixes t :: "Vector2i \<Rightarrow> nat"
  assumes pv: "\<And>a b. passage cs a b \<Longrightarrow> visited (cs a) \<and> visited (cs b)"
    and g8: "\<forall>a b. room a \<and> room b \<and> visited (cs a) \<and> visited (cs b) \<and> t a = t b \<longrightarrow> a = b"
    and g9: "\<forall>a b c. passage cs a b \<and> passage cs a c \<and> t b < t a \<and> t c < t a \<longrightarrow> b = c"
  shows "\<not> cycle cs rs"
proof
  assume "cycle cs rs"
  then have L: "3 \<le> length rs" and d: "distinct rs"
    and ps: "\<And>i. i < length rs \<Longrightarrow> passage cs (rs ! i) (rs ! ((i + 1) mod length rs))"
    by (simp_all add: cycle_def)
  let ?L = "length rs"
  have "rs \<noteq> []" using L by (cases rs) simp_all
  then have ne: "t ` set rs \<noteq> {}" by simp
  have "Max (t ` set rs) \<in> t ` set rs" by (rule Max_in) (use ne in simp_all)
  then obtain x where x: "x \<in> set rs" "t x = Max (t ` set rs)" by auto
  then obtain k where k: "k < ?L" "rs ! k = x" by (auto simp: in_set_conv_nth)
  have mx: "\<And>i. i < ?L \<Longrightarrow> t (rs ! i) \<le> t (rs ! k)"
  proof -
    fix i assume "i < ?L"
    then have "t (rs ! i) \<in> t ` set rs" by simp
    then have "t (rs ! i) \<le> Max (t ` set rs)" by (intro Max_ge) simp_all
    then show "t (rs ! i) \<le> t (rs ! k)" by (simp add: k(2) x(2))
  qed
  define pi where "pi = (k + ?L - 1) mod ?L"
  define si where "si = (k + 1) mod ?L"
  note ci = cycle_index [OF k(1) L, folded pi_def si_def]
  have pos: "0 < ?L" using L by linarith
  have lt: "pi < ?L" "si < ?L"
    unfolding pi_def si_def by (rule mod_less_divisor [OF pos])+
  have p1: "passage cs (rs ! k) (rs ! si)" using ps [OF k(1)] by (simp add: si_def)
  have "passage cs (rs ! pi) (rs ! ((pi + 1) mod ?L))" by (rule ps [OF lt(1)])
  then have "passage cs (rs ! pi) (rs ! k)" by (simp only: ci(4))
  then have p2: "passage cs (rs ! k) (rs ! pi)" by (rule passage_sym)
  have dk: "rs ! pi \<noteq> rs ! k" "rs ! si \<noteq> rs ! k" "rs ! pi \<noteq> rs ! si"
    using d lt k(1) ci(1-3) by (simp_all add: nth_eq_iff_index_eq)
  have rk: "room (rs ! k)" "room (rs ! si)" "room (rs ! pi)"
    using p1 p2 by (simp_all add: passage_def)
  have vk: "visited (cs (rs ! k))" "visited (cs (rs ! si))" "visited (cs (rs ! pi))"
    using pv [OF p1] pv [OF p2] by simp_all
  have "t (rs ! pi) \<noteq> t (rs ! k)" using g8 rk vk dk(1) by blast
  with mx [OF lt(1)] have t1: "t (rs ! pi) < t (rs ! k)" by simp
  have "t (rs ! si) \<noteq> t (rs ! k)" using g8 rk vk dk(2) by blast
  with mx [OF lt(2)] have t2: "t (rs ! si) < t (rs ! k)" by simp
  from g9 p1 p2 t1 t2 have "rs ! si = rs ! pi" by blast
  with dk(3) show False by simp
qed

lemma count_rooms: "length (filter room all_cells) = 100"
  by code_simp


lemma gen_inv_final:
  assumes inv: "gen_inv cs [] t"
    and kinds: "\<And>p. isValidPosition p \<Longrightarrow> type (cs p) = WALL \<or> type (cs p) = PATH"
  shows "\<forall>p. isValidPosition p \<and> type (cs p) = PATH \<longrightarrow>
           (\<exists>ps. walk cs (1, 1) ps \<and> last ((1, 1) # ps) = p)"
    and "\<forall>a. room a \<longrightarrow> type (cs a) = PATH"
    and "\<forall>a. room a \<longrightarrow> (\<exists>rs. linked cs (1, 1) rs \<and> last ((1, 1) # rs) = a)"
    and "\<forall>rs. \<not> cycle cs rs"
    and "\<forall>p. isValidPosition p \<and> \<not> room p \<longrightarrow>
           (type (cs p) \<noteq> WALL) = (\<exists>a b. passage cs a b \<and> p = midpoint a b)"
    and "Suc (count_links cs) = length (filter room all_cells)"
proof -
  from inv have
    g1: "\<forall>p. isValidPosition p \<and> visited (cs p) \<longrightarrow> room p \<and> type (cs p) \<noteq> WALL" and
    g2: "\<forall>p. isValidPosition p \<and> type (cs p) \<noteq> WALL \<and> \<not> room p \<longrightarrow>
         (\<exists>a b. room a \<and> room b \<and> visited (cs a) \<and> visited (cs b) \<and>
                b \<in> set (lattice_neighbours a) \<and> p = midpoint a b)" and
    g3: "visited (cs (1, 1))" "\<forall>p\<in>set []. room p \<and> visited (cs p)" and
    g4: "\<forall>a. room a \<and> visited (cs a) \<and> a \<notin> set [] \<longrightarrow>
         (\<forall>b\<in>set (lattice_neighbours a). room b \<longrightarrow> visited (cs b))" and
    g5: "\<forall>a. room a \<and> visited (cs a) \<longrightarrow> (\<exists>rs. linked cs (1, 1) rs \<and> last ((1, 1) # rs) = a)" and
    g6: "Suc (count_links cs) = count_visited cs" and
    g7: "\<forall>a. room a \<and> visited (cs a) \<longrightarrow> t a < count_visited cs" and
    g8: "\<forall>a b. room a \<and> room b \<and> visited (cs a) \<and> visited (cs b) \<and> t a = t b \<longrightarrow> a = b" and
    g9: "\<forall>a b c. passage cs a b \<and> passage cs a c \<and> t b < t a \<and> t c < t a \<longrightarrow> b = c"
    unfolding gen_inv_def by - ((elim conjE, assumption)+)
  have av: "visited (cs a)" if "room a" for a
  proof (rule rooms_closed [of "\<lambda>a. visited (cs a)", OF g3(1) _ that])
    fix a b assume a: "room a" "visited (cs a)" and b: "b \<in> set (lattice_neighbours a)" "room b"
    from a have "room a \<and> visited (cs a) \<and> a \<notin> set []" by simp
    with g4 b show "visited (cs b)" by blast
  qed
  have nw: "type (cs a) \<noteq> WALL" if "room a" for a
    using g1 av [OF that] room_valid [OF that] by blast
  have rp: "type (cs a) = PATH" if "room a" for a
    using nw [OF that] kinds [OF room_valid [OF that]] by simp
  have rw: "walkable cs b" if "room b" for b
    using nw [OF that] room_valid [OF that] by (simp add: walkable_def)
  have lk: "\<exists>rs. linked cs (1, 1) rs \<and> last ((1, 1) # rs) = a" if "room a" for a
    using g5 av [OF that] that by blast
  have rch: "\<exists>ps. walk cs (1, 1) ps \<and> last ((1, 1) # ps) = a" if "room a" for a
  proof -
    from lk [OF that] obtain rs where rs: "linked cs (1, 1) rs" "last ((1, 1) # rs) = a" by blast
    from linked_walk [of cs "(1, 1)" rs, OF rw rs(1)] rs(2) show ?thesis by simp
  qed
  show "\<forall>p. isValidPosition p \<and> type (cs p) = PATH \<longrightarrow>
           (\<exists>ps. walk cs (1, 1) ps \<and> last ((1, 1) # ps) = p)"
  proof (intro allI impI)
    fix p assume p: "isValidPosition p \<and> type (cs p) = PATH"
    show "\<exists>ps. walk cs (1, 1) ps \<and> last ((1, 1) # ps) = p"
    proof (cases "room p")
      case True
      then show ?thesis by (rule rch)
    next
      case False
      with p have "isValidPosition p \<and> type (cs p) \<noteq> WALL \<and> \<not> room p" by simp
      with g2 obtain a b where ab: "room a" "room b" "b \<in> set (lattice_neighbours a)"
        "p = midpoint a b" by blast
      from rch [OF ab(1)] obtain ps where ps: "walk cs (1, 1) ps" "last ((1, 1) # ps) = a"
        by blast
      have "p \<in> set (neighbours a)" using midpoint_props(3) [OF ab(1-3)] ab(4) by simp
      moreover have "walkable cs p" using p by (simp add: walkable_def)
      ultimately have "walk cs (1, 1) (ps @ [p])"
        using ps by (simp only: walk_append walk.simps)
      moreover have "last ((1, 1) # ps @ [p]) = p" by simp
      ultimately show ?thesis by blast
    qed
  qed
  show "\<forall>a. room a \<longrightarrow> type (cs a) = PATH" using rp by blast
  show "\<forall>a. room a \<longrightarrow> (\<exists>rs. linked cs (1, 1) rs \<and> last ((1, 1) # rs) = a)" using lk by blast
  show "\<forall>rs. \<not> cycle cs rs"
    using no_cycle [OF passage_visited [OF g2] g8 g9] by blast
  show "\<forall>p. isValidPosition p \<and> \<not> room p \<longrightarrow>
           (type (cs p) \<noteq> WALL) = (\<exists>a b. passage cs a b \<and> p = midpoint a b)"
  proof (intro allI impI iffI)
    fix p assume p: "isValidPosition p \<and> \<not> room p" and "type (cs p) \<noteq> WALL"
    with g2 obtain a b where ab: "room a" "room b" "b \<in> set (lattice_neighbours a)"
      "p = midpoint a b" by blast
    with \<open>type (cs p) \<noteq> WALL\<close> have "passage cs a b \<and> p = midpoint a b"
      by (simp add: passage_def)
    then show "\<exists>a b. passage cs a b \<and> p = midpoint a b" by blast
  next
    fix p assume "\<exists>a b. passage cs a b \<and> p = midpoint a b"
    then show "type (cs p) \<noteq> WALL" by (auto simp: passage_def)
  qed
  have "filter (\<lambda>p. visited (cs p)) all_cells = filter room all_cells"
  proof (rule filter_cong [OF refl])
    fix p assume "p \<in> set all_cells"
    then have "isValidPosition p" by (simp add: in_all_cells)
    then show "visited (cs p) = room p" using g1 av by blast
  qed
  then show "Suc (count_links cs) = length (filter room all_cells)"
    using g6 by (simp add: count_visited_def)
qed

section \<open>The claims\<close>

text \<open>
  Claim C1. Whatever the state and the random numbers, the grid that \<open>generateMaze\<close>
  leaves is a perfect maze. Every PATH cell is the end of a walk from \<open>(1, 1)\<close> through
  4-connected cells that are not WALL. Every room (interior cell with two odd
  coordinates) is PATH and is linked to \<open>(1, 1)\<close> by passages, no tour of passages is a
  cycle, the opened cells that are not rooms are exactly the midpoints of the passages,
  and there are 99 of them for the 100 rooms.
\<close>

theorem generateMaze_perfect:
  "(\<forall>p. isValidPosition p \<and> type (cells (generateMaze m) p) = PATH \<longrightarrow>
      (\<exists>ps. walk (cells (generateMaze m)) (1, 1) ps \<and> last ((1, 1) # ps) = p)) \<and>
   (\<forall>a. room a \<longrightarrow> type (cells (generateMaze m) a) = PATH) \<and>
   (\<forall>a. room a \<longrightarrow>
      (\<exists>rs. linked (cells (generateMaze m)) (1, 1) rs \<and> last ((1, 1) # rs) = a)) \<and>
   (\<forall>rs. \<not> cycle (cells (generateMaze m)) rs) \<and>
   (\<forall>p. isValidPosition p \<and> \<not> room p \<longrightarrow>
      (type (cells (generateMaze m) p) \<noteq> WALL) =
        (\<exists>a b. passage (cells (generateMaze m)) a b \<and> p = midpoint a b)) \<and>
   count_links (cells (generateMaze m)) = length (filter room all_cells) - 1 \<and>
   length (filter room all_cells) = 100"
proof -
  obtain cs r where g: "gen_loop [(1, 1)] (start_cells (cells m)) (rng m) = (cs, r)"
    by (cases "gen_loop [(1, 1)] (start_cells (cells m)) (rng m)")
  then have c: "cells (generateMaze m) = cs"
    by (simp add: generateMaze_eq del: gen_loop.simps)
  from gen_loop_inv [OF gen_inv_init g] obtain t where inv: "gen_inv cs [] t" by blast
  have kinds: "\<And>p. isValidPosition p \<Longrightarrow> type (cs p) = WALL \<or> type (cs p) = PATH"
    using generateMaze_types [of _ m] by (simp only: c)
  note f = gen_inv_final [OF inv kinds]
  have "count_links cs = length (filter room all_cells) - 1" using f(6) by simp
  then show ?thesis
    unfolding c by (intro conjI f(1-5) count_rooms)
qed

theorem generateMaze_perfect_witness:
  "room (19, 19) \<and> isValidPosition (19, 19) \<and>
   type (cells (generateMaze example_maze) (19, 19)) = PATH \<and>
   (\<exists>ps. walk (cells (generateMaze example_maze)) (1, 1) ps \<and> last ((1, 1) # ps) = (19, 19)) \<and>
   (\<exists>rs. linked (cells (generateMaze example_maze)) (1, 1) rs \<and> last ((1, 1) # rs) = (19, 19)) \<and>
   count_links (cells (generateMaze example_maze)) = 99"
proof -
  note t = generateMaze_perfect [of example_maze]
  have r: "room (19, 19)" by (simp add: room_def MAZE_WIDTH_def MAZE_HEIGHT_def)
  have v: "isValidPosition (19, 19)" by (simp add: isValidPosition_def MAZE_WIDTH_def MAZE_HEIGHT_def)
  from t r have p: "type (cells (generateMaze example_maze) (19, 19)) = PATH" by blast
  from t v p have w: "\<exists>ps. walk (cells (generateMaze example_maze)) (1, 1) ps \<and>
      last ((1, 1) # ps) = (19, 19)" by blast
  from t r have l: "\<exists>rs. linked (cells (generateMaze example_maze)) (1, 1) rs \<and>
      last ((1, 1) # rs) = (19, 19)" by blast
  from t have n: "count_links (cells (generateMaze example_maze)) = 99" by simp
  from r v p w l n show ?thesis by (intro conjI)
qed

text \<open>
  Claim C3, as amended. \<open>movePlayer dx dy\<close> returns true exactly when the destination
  \<open>(playerPos.x + dx, playerPos.y + dy)\<close> is a valid position whose kind is not WALL. It
  then writes PATH to the old player cell, moves \<open>playerPos\<close> to the destination and
  writes PLAYER to the destination, in this order, and changes nothing else: the
  destination ends as PLAYER, and the old cell ends as PATH unless \<open>dx = dy = 0\<close>, where
  the two are one cell. When it returns false the whole state is unchanged.
\<close>

theorem movePlayer_moves_iff_walkable:
  "(fst (movePlayer dx dy m) \<longleftrightarrow>
      isValidPosition (destination m dx dy) \<and> type (cells m (destination m dx dy)) \<noteq> WALL) \<and>
   (fst (movePlayer dx dy m) \<longrightarrow>
      snd (movePlayer dx dy m) =
        m\<lparr>cells := (cells m)(playerPos m := (cells m (playerPos m))\<lparr>type := PATH\<rparr>,
                              destination m dx dy := (cells m (destination m dx dy))\<lparr>type := PLAYER\<rparr>),
          playerPos := destination m dx dy\<rparr> \<and>
      type (cells (snd (movePlayer dx dy m)) (destination m dx dy)) = PLAYER \<and>
      ((dx, dy) \<noteq> (0, 0) \<longrightarrow> type (cells (snd (movePlayer dx dy m)) (playerPos m)) = PATH)) \<and>
   (\<not> fst (movePlayer dx dy m) \<longrightarrow> snd (movePlayer dx dy m) = m)"
  using destination_eq_iff [of m dx dy] by (auto simp: movePlayer_eq)

text \<open>
  On the example state a step to the right succeeds and swaps the two kinds; a step
  down runs into the wall and changes nothing.
\<close>

theorem movePlayer_moves_iff_walkable_witness:
  "fst (movePlayer 1 0 example_maze) \<and>
   ((1::int), (0::int)) \<noteq> (0, 0) \<and>
   playerPos (snd (movePlayer 1 0 example_maze)) = (18, 19) \<and>
   type (cells (snd (movePlayer 1 0 example_maze)) (18, 19)) = PLAYER \<and>
   type (cells (snd (movePlayer 1 0 example_maze)) (17, 19)) = PATH \<and>
   \<not> fst (movePlayer 0 1 example_maze) \<and>
   snd (movePlayer 0 1 example_maze) = example_maze"
proof -
  have d1: "destination example_maze 1 0 = (18, 19)"
    and d2: "destination example_maze 0 1 = (17, 20)"
    and p: "playerPos example_maze = (17, 19)"
    by (simp_all add: destination_def example_maze_def)
  have w1: "isValidPosition (18, 19) \<and> type (cells example_maze (18, 19)) \<noteq> WALL"
    by (simp add: isValidPosition_def MAZE_WIDTH_def MAZE_HEIGHT_def example_maze_def
        example_cells_def)
  have w2: "type (cells example_maze (17, 20)) = WALL"
    by (simp add: example_maze_def example_cells_def)
  from movePlayer_moves_iff_walkable [of 1 0 example_maze] w1
  have a: "fst (movePlayer 1 0 example_maze) \<and>
      playerPos (snd (movePlayer 1 0 example_maze)) = (18, 19) \<and>
      type (cells (snd (movePlayer 1 0 example_maze)) (18, 19)) = PLAYER \<and>
      type (cells (snd (movePlayer 1 0 example_maze)) (17, 19)) = PATH"
    unfolding d1 p by simp
  from movePlayer_moves_iff_walkable [of 0 1 example_maze] w2
  have b: "\<not> fst (movePlayer 0 1 example_maze) \<and> snd (movePlayer 0 1 example_maze) = example_maze"
    unfolding d2 by simp
  from a b show ?thesis by simp
qed

text \<open>
  The claim as it is written fails for \<open>dx = dy = 0\<close>: the call returns true, and the
  cell the player stood on is PLAYER afterwards, not PATH.
\<close>

theorem movePlayer_stay_counterexample:
  "fst (movePlayer 0 0 example_maze) \<and>
   type (cells (snd (movePlayer 0 0 example_maze)) (playerPos example_maze)) = PLAYER \<and>
   type (cells (snd (movePlayer 0 0 example_maze)) (playerPos example_maze)) \<noteq> PATH"
  by (simp add: movePlayer_def Let_def example_maze_def example_cells_def isValidPosition_def
      MAZE_WIDTH_def MAZE_HEIGHT_def)

text \<open>
  Claim C5, as amended. \<open>reset\<close> and \<open>generateNewMaze\<close> end the animation: afterwards
  \<open>autoMoving\<close> is false, \<open>movePath\<close> is empty and the index is 0. \<open>movePlayer\<close> does
  not: it leaves \<open>autoMoving\<close>, \<open>movePath\<close> and \<open>currentMoveIndex\<close> as they are. Manual
  movement is kept away from a running animation by the input adapter \<open>specialKeys\<close>,
  which ignores the arrow keys while \<open>autoMoving\<close> is true.
\<close>

theorem animation_cancellation:
  "\<not> autoMoving (reset m) \<and> movePath (reset m) = [] \<and> currentMoveIndex (reset m) = 0 \<and>
   \<not> autoMoving (generateNewMaze m) \<and> movePath (generateNewMaze m) = [] \<and>
   currentMoveIndex (generateNewMaze m) = 0 \<and>
   autoMoving (snd (movePlayer dx dy m)) = autoMoving m \<and>
   movePath (snd (movePlayer dx dy m)) = movePath m \<and>
   currentMoveIndex (snd (movePlayer dx dy m)) = currentMoveIndex m \<and>
   (autoMoving m \<longrightarrow> specialKeys k m = m)"
  by (simp add: reset_def generateNewMaze_def Let_def movePlayer_eq specialKeys_def
      isAutoMoving_def)

theorem animation_cancellation_witness:
  "autoMoving animating_maze \<and>
   \<not> autoMoving (reset animating_maze) \<and> movePath (reset animating_maze) = [] \<and>
   \<not> autoMoving (generateNewMaze animating_maze) \<and>
   movePath (generateNewMaze animating_maze) = [] \<and>
   specialKeys GLUT_KEY_RIGHT animating_maze = animating_maze"
  using animation_cancellation [of animating_maze 1 0 GLUT_KEY_RIGHT] example_prepared
  by simp

text \<open>
  The claim as it is written fails for \<open>movePlayer\<close>: called while the animation runs,
  it moves the player and the animation stays switched on with its path.
\<close>

theorem movePlayer_keeps_animation_counterexample:
  "autoMoving animating_maze \<and>
   fst (movePlayer 1 0 animating_maze) \<and>
   autoMoving (snd (movePlayer 1 0 animating_maze)) \<and>
   movePath (snd (movePlayer 1 0 animating_maze)) = [(17, 19), (18, 19), (19, 19)]"
  unfolding animating_maze_def by code_simp

text \<open>
  Claim C7. In every state whose player position equals its target position,
  \<open>findPathBFS\<close> returns, with \<open>pathFound\<close> true and an empty solution path.
\<close>

theorem findPathBFS_player_at_target:
  "playerPos m = targetPos m \<Longrightarrow>
     \<exists>m'. findPathBFS m = Some m' \<and> pathFound m' \<and> path m' = []"
  by (simp add: findPathBFS_same_pos)

text \<open>The example state with the player moved onto the target.\<close>

theorem findPathBFS_player_at_target_witness:
  "playerPos (example_maze\<lparr>playerPos := (19, 19)\<rparr>) = targetPos (example_maze\<lparr>playerPos := (19, 19)\<rparr>) \<and>
   (\<exists>m'. findPathBFS (example_maze\<lparr>playerPos := (19, 19)\<rparr>) = Some m' \<and> pathFound m' \<and> path m' = [])"
proof -
  have e: "playerPos (example_maze\<lparr>playerPos := (19, 19)\<rparr>) =
      targetPos (example_maze\<lparr>playerPos := (19, 19)\<rparr>)"
    by (simp add: example_maze_def)
  from findPathBFS_player_at_target [OF e] e show ?thesis by simp
qed

text \<open>
  Claim C2. In every state in which the target can be reached from the player by a walk
  over cells that are not WALL, \<open>findPathBFS\<close> returns with \<open>pathFound\<close> set, and the
  solution path is such a walk from the player to the target that no other walk
  undercuts: its number of edges is the BFS layer distance between the two cells.
\<close>

theorem findPathBFS_shortest:
  "reachable (cells m) (playerPos m) (targetPos m) \<Longrightarrow>
     \<exists>m'. findPathBFS m = Some m' \<and> pathFound m' \<and>
          walk (cells m) (playerPos m) (path m') \<and>
          last (playerPos m # path m') = targetPos m \<and>
          (\<forall>qs. walk (cells m) (playerPos m) qs \<and> last (playerPos m # qs) = targetPos m \<longrightarrow>
                length (path m') \<le> length qs) \<and>
          length (path m') = layer_distance (cells m) (playerPos m) (targetPos m)"
proof -
  assume r: "reachable (cells m) (playerPos m) (targetPos m)"
  from findPathBFS_result [of m] obtain m' where
    m': "findPathBFS m = Some m'" "bfs_post (cells m) (playerPos m) (targetPos m) m'" by blast
  from m'(2) r have f: "pathFound m'"
    and sw: "shortest_walk (cells m) (playerPos m) (targetPos m) (path m')"
    by (simp_all add: bfs_post_def)
  from sw shortest_walk_length [OF sw] m'(1) f show ?thesis
    unfolding shortest_walk_def by blast
qed

text \<open>On the example state the search finds the two-step path along the corridor.\<close>

theorem findPathBFS_shortest_witness:
  "reachable (cells example_maze) (playerPos example_maze) (targetPos example_maze) \<and>
   (\<exists>m'. findPathBFS example_maze = Some m' \<and> pathFound m' \<and> path m' = [(18, 19), (19, 19)] \<and>
         layer_distance (cells example_maze) (playerPos example_maze) (targetPos example_maze) = 2)"
proof -
  from findPathBFS_shortest [OF example_reachable] obtain m' where
    m': "findPathBFS example_maze = Some m'" "pathFound m'"
      "length (path m') = layer_distance (cells example_maze) (playerPos example_maze) (targetPos example_maze)"
    by blast
  from m'(1) example_path have "path m' = [(18, 19), (19, 19)]" by simp
  with m' example_reachable show ?thesis by auto
qed

text \<open>
  Claim C6. \<open>findPathBFS\<close> starts from the state that \<open>resetVisited\<close> leaves: no valid
  cell visited, the path empty, \<open>pathFound\<close> false (running it is the same as clearing
  first and running it then). In every state in which no walk over cells that are not
  WALL leads from the player to the target, it returns, with \<open>pathFound\<close> false and an
  empty solution path.
\<close>

theorem findPathBFS_no_path:
  "(\<forall>p. isValidPosition p \<longrightarrow> \<not> visited (cells (resetVisited m) p)) \<and>
   path (resetVisited m) = [] \<and> \<not> pathFound (resetVisited m) \<and>
   findPathBFS m = findPathBFS (resetVisited m) \<and>
   (\<not> reachable (cells m) (playerPos m) (targetPos m) \<longrightarrow>
      (\<exists>m'. findPathBFS m = Some m' \<and> \<not> pathFound m' \<and> path m' = []))"
proof -
  from findPathBFS_result [of m] obtain m' where
    m': "findPathBFS m = Some m'" "bfs_post (cells m) (playerPos m) (targetPos m) m'" by blast
  then have "\<not> reachable (cells m) (playerPos m) (targetPos m) \<longrightarrow>
      (\<exists>m'. findPathBFS m = Some m' \<and> \<not> pathFound m' \<and> path m' = [])"
    by (auto simp: bfs_post_def)
  then show ?thesis
    by (simp add: findPathBFS_resetVisited) (simp add: resetVisited_def)
qed

text \<open>
  The walled-up example: the stale path and flag are cleared and the search ends
  without a path.
\<close>

theorem findPathBFS_no_path_witness:
  "isValidPosition (18, 19) \<and> \<not> visited (cells (resetVisited blocked_maze) (18, 19)) \<and>
   pathFound blocked_maze \<and> path blocked_maze \<noteq> [] \<and>
   \<not> reachable (cells blocked_maze) (playerPos blocked_maze) (targetPos blocked_maze) \<and>
   (\<exists>m'. findPathBFS blocked_maze = Some m' \<and> \<not> pathFound m' \<and> path m' = [])"
proof -
  have v: "isValidPosition (18, 19)"
    by (simp add: isValidPosition_def MAZE_WIDTH_def MAZE_HEIGHT_def)
  have s: "pathFound blocked_maze \<and> path blocked_maze \<noteq> []"
    by (simp add: blocked_maze_def)
  from findPathBFS_no_path [of blocked_maze] v blocked_unreachable s show ?thesis by blast
qed

text \<open>
  Claim C10. The directions are expanded in the fixed order \<open>+x, -x, +y, -y\<close>, and
  \<open>findPathBFS\<close> is a function of the kinds of the grid cells, the player position and
  the target position alone: two runs on states that agree in these (whatever their
  visited flags, old paths, flags and animation state) return the same solution path
  and the same \<open>pathFound\<close>.
\<close>

theorem findPathBFS_deterministic:
  "directions = [(1, 0), (-1, 0), (0, 1), (0, -1)] \<and>
   ((\<forall>p. isValidPosition p \<longrightarrow> type (cells m1 p) = type (cells m2 p)) \<and>
    playerPos m1 = playerPos m2 \<and> targetPos m1 = targetPos m2 \<longrightarrow>
      map_option path (findPathBFS m1) = map_option path (findPathBFS m2) \<and>
      map_option pathFound (findPathBFS m1) = map_option pathFound (findPathBFS m2))"
  using findPathBFS_same_kinds [of m1 m2] by (simp add: directions_def)

text \<open>
  The example state and its copy with stale data give the same path; and of the two
  shortest paths of the fork state the search takes the one that starts with \<open>+x\<close>.
\<close>

theorem findPathBFS_deterministic_witness:
  "isValidPosition (18, 19) \<and> type (cells example_maze (18, 19)) = type (cells stale_maze (18, 19)) \<and>
   playerPos example_maze = playerPos stale_maze \<and> targetPos example_maze = targetPos stale_maze \<and>
   path example_maze \<noteq> path stale_maze \<and>
   map_option path (findPathBFS stale_maze) = Some [(18, 19), (19, 19)] \<and>
   map_option path (findPathBFS example_maze) = Some [(18, 19), (19, 19)] \<and>
   map_option pathFound (findPathBFS example_maze) = map_option pathFound (findPathBFS stale_maze) \<and>
   map_option path (findPathBFS fork_maze) = Some [(2, 1), (2, 2)]"
proof -
  have k: "\<forall>p. isValidPosition p \<longrightarrow> type (cells example_maze p) = type (cells stale_maze p)"
    by (simp add: stale_maze_def example_maze_def)
  have p: "playerPos example_maze = playerPos stale_maze \<and> targetPos example_maze = targetPos stale_maze"
    by (simp add: stale_maze_def)
  have v: "isValidPosition (18, 19)"
    by (simp add: isValidPosition_def MAZE_WIDTH_def MAZE_HEIGHT_def)
  have n: "path example_maze \<noteq> path stale_maze"
    by (simp add: stale_maze_def example_maze_def)
  have e: "map_option path (findPathBFS example_maze) = Some [(18, 19), (19, 19)]"
    by code_simp
  have f: "map_option path (findPathBFS fork_maze) = Some [(2, 1), (2, 2)]"
    by code_simp
  from findPathBFS_deterministic [of example_maze stale_maze] k p v n e f
  show ?thesis by simp
qed

text \<open>
  Claim C9. Whenever \<open>autoMoving\<close> is true the animation path \<open>movePath\<close> is not empty.
  This holds after the constructor, after \<open>reset\<close> and after \<open>generateNewMaze\<close>, and every
  operation keeps it: \<open>movePlayer\<close>, \<open>findPathBFS\<close>, \<open>prepareAutoMove\<close> and \<open>autoMoveStep\<close>.
  So while \<open>autoMoving\<close>, \<open>movePath.size()\<close> is at least 1 and the unsigned
  \<open>movePath.size() - 1\<close> of \<open>autoMoveStep\<close> does not wrap around: it is the number
  \<open>size - 1\<close>.
\<close>

theorem animation_path_nonempty:
  "anim_ok (new_Maze r) \<and> anim_ok (reset m) \<and> anim_ok (generateNewMaze m) \<and>
   (anim_ok m \<longrightarrow>
      anim_ok (snd (movePlayer dx dy m)) \<and>
      (\<forall>m'. findPathBFS m = Some m' \<longrightarrow> anim_ok m') \<and>
      (\<forall>m'. prepareAutoMove m = Some m' \<longrightarrow> anim_ok m') \<and>
      (\<forall>b m'. autoMoveStep m = Some (b, m') \<longrightarrow> anim_ok m')) \<and>
   (anim_ok m \<and> autoMoving m \<longrightarrow>
      1 \<le> length (movePath m) \<and>
      (length (movePath m) < 2 ^ 64 \<longrightarrow>
         unat (word_of_nat (length (movePath m)) - 1 :: 64 word) = length (movePath m) - 1))"
proof -
  have a: "anim_ok (new_Maze r) \<and> anim_ok (reset m) \<and> anim_ok (generateNewMaze m)"
    by (rule anim_ok_established)
  have b: "anim_ok m \<longrightarrow> (\<forall>m'. prepareAutoMove m = Some m' \<longrightarrow> anim_ok m')"
  proof (intro impI allI)
    fix m' assume ok: "anim_ok m" and p: "prepareAutoMove m = Some m'"
    then obtain m1 where m1: "findPathBFS m = Some m1"
      by (auto simp: prepareAutoMove_def split: option.splits)
    from prepareAutoMove_eq [OF m1] p
    have "m' = (if pathFound m1
        then m1\<lparr>autoMoving := True, currentMoveIndex := 0, movePath := playerPos m # path m1\<rparr>
        else m1)" by simp
    then show "anim_ok m'"
      using ok findPathBFS_frame [OF m1] by (simp add: anim_ok_def)
  qed
  have c: "anim_ok m \<longrightarrow> anim_ok (snd (movePlayer dx dy m))"
    by (simp add: anim_ok_def movePlayer_eq)
  have d: "anim_ok m \<longrightarrow> (\<forall>m'. findPathBFS m = Some m' \<longrightarrow> anim_ok m')"
  proof (intro impI allI)
    fix m' assume ok: "anim_ok m" and p: "findPathBFS m = Some m'"
    show "anim_ok m'"
      using ok findPathBFS_frame [OF p] by (simp add: anim_ok_def)
  qed
  have e: "anim_ok m \<longrightarrow> (\<forall>b m'. autoMoveStep m = Some (b, m') \<longrightarrow> anim_ok m')"
  proof (intro impI allI)
    fix b m' assume ok: "anim_ok m" and p: "autoMoveStep m = Some (b, m')"
    show "anim_ok m'"
      using ok autoMoveStep_frame [OF p] by (auto simp: anim_ok_def)
  qed
  have f: "anim_ok m \<and> autoMoving m \<longrightarrow> 1 \<le> length (movePath m) \<and>
      (length (movePath m) < 2 ^ 64 \<longrightarrow>
         unat (word_of_nat (length (movePath m)) - 1 :: 64 word) = length (movePath m) - 1)"
  proof (intro impI conjI)
    assume a: "anim_ok m \<and> autoMoving m"
    then show l: "1 \<le> length (movePath m)" by (cases "movePath m") (auto simp: anim_ok_def)
    assume "length (movePath m) < 2 ^ 64"
    with l show "unat (word_of_nat (length (movePath m)) - 1 :: 64 word) = length (movePath m) - 1"
      by (rule size_minus_one)
  qed
  from a b c d e f show ?thesis by blast
qed

text \<open>The prepared example: three positions on the animation path, \<open>size() - 1 = 2\<close>.\<close>

theorem animation_path_nonempty_witness:
  "anim_ok animating_maze \<and> autoMoving animating_maze \<and> length (movePath animating_maze) = 3 \<and>
   unat (word_of_nat (length (movePath animating_maze)) - 1 :: 64 word) = 2 \<and>
   anim_ok (snd (movePlayer 1 0 animating_maze)) \<and>
   (\<exists>m'. findPathBFS animating_maze = Some m' \<and> anim_ok m') \<and>
   (\<exists>m'. prepareAutoMove animating_maze = Some m' \<and> anim_ok m') \<and>
   (\<exists>b m'. autoMoveStep animating_maze = Some (b, m') \<and> anim_ok m')"
proof -
  have ok: "anim_ok animating_maze" and am: "autoMoving animating_maze"
    and len: "length (movePath animating_maze) = 3"
    using example_prepared by (simp_all add: anim_ok_def)
  have lt: "length (movePath animating_maze) < 2 ^ 64" unfolding len by simp
  obtain m1 where m1: "findPathBFS animating_maze = Some m1"
    using findPathBFS_total by blast
  then obtain m2 where m2: "prepareAutoMove animating_maze = Some m2"
    by (simp add: prepareAutoMove_def)
  have "autoMoveStep animating_maze \<noteq> None"
    using example_prepared by (simp add: autoMoveStep_def Let_def)
  then obtain b m3 where m3: "autoMoveStep animating_maze = Some (b, m3)" by auto
  from animation_path_nonempty [of r animating_maze 1 0]
  have p1: "anim_ok animating_maze \<longrightarrow>
      anim_ok (snd (movePlayer 1 0 animating_maze)) \<and>
      (\<forall>m'. findPathBFS animating_maze = Some m' \<longrightarrow> anim_ok m') \<and>
      (\<forall>m'. prepareAutoMove animating_maze = Some m' \<longrightarrow> anim_ok m') \<and>
      (\<forall>b m'. autoMoveStep animating_maze = Some (b, m') \<longrightarrow> anim_ok m')"
    and p3: "anim_ok animating_maze \<and> autoMoving animating_maze \<longrightarrow>
      1 \<le> length (movePath animating_maze) \<and>
      (length (movePath animating_maze) < 2 ^ 64 \<longrightarrow>
         unat (word_of_nat (length (movePath animating_maze)) - 1 :: 64 word) =
           length (movePath animating_maze) - 1)"
    by blast+
  from p3 ok am lt
  have "unat (word_of_nat (length (movePath animating_maze)) - 1 :: 64 word) =
      length (movePath animating_maze) - 1" by blast
  with len have u: "unat (word_of_nat (length (movePath animating_maze)) - 1 :: 64 word) = 2"
    by arith
  from p1 ok m1 m2 m3 have q1: "anim_ok (snd (movePlayer 1 0 animating_maze))"
    and q2: "\<exists>m'. findPathBFS animating_maze = Some m' \<and> anim_ok m'"
    and q4: "\<exists>m'. prepareAutoMove animating_maze = Some m' \<and> anim_ok m'"
    and q3: "\<exists>b m'. autoMoveStep animating_maze = Some (b, m') \<and> anim_ok m'"
    by blast+
  from ok am len u q1 q2 q4 q3 show ?thesis by blast
qed

text \<open>
  Claim C8, as amended. Let \<open>prepareAutoMove\<close> succeed with a solution path of length
  \<open>n\<close>. Of the calls of \<open>autoMoveStep\<close> that follow, the first \<open>n\<close> return true and every
  later one returns false. From the \<open>n\<close>-th call on the player is at the target.
  \<open>autoMoving\<close> is false after the \<open>n\<close>-th call and after every later call when \<open>n > 0\<close>;
  when \<open>n = 0\<close> (the player already stands on the target) it is still true right after
  \<open>prepareAutoMove\<close> and is false after the first call, which returns false.
\<close>

theorem autoMoveStep_run:
  "prepareAutoMove m = Some m0 \<Longrightarrow> pathFound m0 \<Longrightarrow>
     \<exists>m'. autoMoveSteps k m0 =
            Some (replicate (min k (length (path m0))) True @ replicate (k - length (path m0)) False, m') \<and>
          (length (path m0) \<le> k \<longrightarrow> playerPos m' = targetPos m0) \<and>
          (length (path m0) \<le> k \<and> 0 < k \<longrightarrow> \<not> autoMoving m')"
proof -
  assume p: "prepareAutoMove m = Some m0" and f: "pathFound m0"
  let ?P = "path m0" and ?src = "playerPos m" and ?tgt = "targetPos m"
  note ps = prepared_state [OF p f]
  have tp: "targetPos m0 = ?tgt" by (rule ps(6))
  show ?thesis
  proof (cases "?P = []")
    case True
    then have at0: "anim_at [?src] ?tgt 0 m0" using ps(1) by simp
    have st: "?src = ?tgt" using ps(4) True by simp
    have pp: "playerPos m0 = ?tgt" using at0 st by (simp add: anim_at_def)
    show ?thesis
    proof (cases k)
      case 0
      then show ?thesis using True pp tp by simp
    next
      case (Suc j)
      have "autoMoveSteps (Suc j) m0 = Some (False # replicate j False, m0\<lparr>autoMoving := False\<rparr>)"
        using step_nothing_to_do [OF at0] steps_stopped [of "m0\<lparr>autoMoving := False\<rparr>" j]
        by simp
      then show ?thesis using True Suc pp tp by simp
    qed
  next
    case False
    then have am: "autoMoving m0 = (0 < length ?P)" using ps(2) by simp
    show ?thesis
    proof (cases "k \<le> length ?P")
      case True
      from steps_running [OF ps(5,3,4) ps(1) am, of k] True
      obtain s' where s': "autoMoveSteps k m0 = Some (replicate k True, s')"
        "anim_at (?src # ?P) ?tgt k s'" "autoMoving s' = (k < length ?P)"
        by auto
      have "length ?P \<le> k \<longrightarrow> playerPos s' = targetPos m0"
      proof
        assume "length ?P \<le> k"
        with True have "k = length ?P" by simp
        then have "playerPos s' = (?src # ?P) ! length ?P" using s'(2) by (simp add: anim_at_def)
        also have "\<dots> = last (?src # ?P)" using False by (simp add: last_conv_nth)
        finally show "playerPos s' = targetPos m0" using ps(4) tp by simp
      qed
      moreover have "length ?P \<le> k \<and> 0 < k \<longrightarrow> \<not> autoMoving s'" using s'(3) by simp
      moreover have "replicate (min k (length ?P)) True @ replicate (k - length ?P) False =
          replicate k True" using True by (simp add: min_def)
      ultimately show ?thesis using s'(1) by simp
    next
      case gt: False
      let ?n = "length ?P"
      from steps_running [OF ps(5,3,4) ps(1) am, of ?n]
      obtain s' where s': "autoMoveSteps ?n m0 = Some (replicate ?n True, s')"
        "anim_at (?src # ?P) ?tgt ?n s'" "autoMoving s' = (?n < ?n)"
        by auto
      then have na: "\<not> autoMoving s'" by simp
      have k: "k = ?n + (k - ?n)" using gt by simp
      have "autoMoveSteps (?n + (k - ?n)) m0 =
          Some (replicate ?n True @ replicate (k - ?n) False, s')"
        using s'(1) steps_stopped [OF na, of "k - ?n"] by (simp only: autoMoveSteps_add) simp
      then have r: "autoMoveSteps k m0 = Some (replicate ?n True @ replicate (k - ?n) False, s')"
        using k by simp
      have "playerPos s' = (?src # ?P) ! ?n" using s'(2) by (simp add: anim_at_def)
      also have "\<dots> = last (?src # ?P)" using False by (simp add: last_conv_nth)
      finally have pp: "playerPos s' = targetPos m0" using ps(4) tp by simp
      have "min k ?n = ?n" using gt by simp
      then show ?thesis using r pp na by simp
    qed
  qed
qed

text \<open>
  The example, path length 2: three calls return true, true, false, and leave the
  player on the target with the animation switched off.
\<close>

theorem autoMoveStep_run_witness:
  "prepareAutoMove example_maze = Some animating_maze \<and> pathFound animating_maze \<and>
   length (path animating_maze) = 2 \<and>
   (\<exists>m'. autoMoveSteps 3 animating_maze = Some ([True, True, False], m') \<and>
         playerPos m' = targetPos animating_maze \<and> \<not> autoMoving m')"
proof -
  have f: "pathFound animating_maze" and l: "length (path animating_maze) = 2"
    using example_prepared by simp_all
  from autoMoveStep_run [OF example_prepare f, of 3]
  obtain m' where "autoMoveSteps 3 animating_maze = Some ([True, True, False], m')"
    "playerPos m' = targetPos animating_maze" "\<not> autoMoving m'"
    unfolding l by (auto simp: numeral_eq_Suc)
  with example_prepare f l show ?thesis by blast
qed

text \<open>
  The claim as it is written fails when the player stands on the target: the solution
  path is empty and no call returns true, yet after these zero calls \<open>autoMoving\<close> is
  true; the first call, which returns false, is what clears it.
\<close>

theorem autoMoveStep_at_target_counterexample:
  "playerPos arrived_maze = targetPos arrived_maze \<and>
   map_option pathFound (prepareAutoMove arrived_maze) = Some True \<and>
   map_option path (prepareAutoMove arrived_maze) = Some [] \<and>
   map_option autoMoving (prepareAutoMove arrived_maze) = Some True \<and>
   map_option fst (autoMoveStep (the (prepareAutoMove arrived_maze))) = Some False"
  unfolding arrived_maze_def by code_simp

text \<open>
  Claim C4, as amended. After the constructor and after \<open>generateNewMaze\<close> the grid has
  exactly one cell tagged PLAYER and exactly one tagged TARGET, and so it has after
  \<open>reset\<close>. Every operation keeps \<open>tags_ok\<close>: exactly one PLAYER cell, the one at
  \<open>playerPos\<close>, and at most one TARGET cell, at \<open>targetPos\<close>. The number of TARGET cells
  is kept by \<open>findPathBFS\<close> and \<open>prepareAutoMove\<close>, and by \<open>movePlayer\<close> and \<open>autoMoveStep\<close>
  as long as the player does not arrive on the target position; it is 1 again after
  \<open>reset\<close>.
\<close>

theorem tag_counts:
  "tags_ok (new_Maze r) \<and> count_type PLAYER (cells (new_Maze r)) = 1 \<and>
   count_type TARGET (cells (new_Maze r)) = 1 \<and>
   tags_ok (generateNewMaze m) \<and> count_type TARGET (cells (generateNewMaze m)) = 1 \<and>
   (tags_ok m \<longrightarrow>
      count_type PLAYER (cells m) = 1 \<and> count_type TARGET (cells m) \<le> 1 \<and>
      tags_ok (reset m) \<and> count_type TARGET (cells (reset m)) = 1 \<and>
      tags_ok (snd (movePlayer dx dy m)) \<and>
      (playerPos (snd (movePlayer dx dy m)) \<noteq> targetPos m \<longrightarrow>
         count_type TARGET (cells (snd (movePlayer dx dy m))) = count_type TARGET (cells m)) \<and>
      (\<forall>m'. findPathBFS m = Some m' \<longrightarrow>
         tags_ok m' \<and> count_type TARGET (cells m') = count_type TARGET (cells m)) \<and>
      (\<forall>m'. prepareAutoMove m = Some m' \<longrightarrow>
         tags_ok m' \<and> count_type TARGET (cells m') = count_type TARGET (cells m)) \<and>
      (\<forall>b m'. autoMoveStep m = Some (b, m') \<longrightarrow>
         tags_ok m' \<and>
         (playerPos m' \<noteq> targetPos m \<longrightarrow>
            count_type TARGET (cells m') = count_type TARGET (cells m))))"
proof -
  have a: "tags_ok (new_Maze r) \<and> count_type TARGET (cells (new_Maze r)) = 1"
    unfolding new_Maze_def by (intro conjI fresh_maze_tags)
  have b: "tags_ok (generateNewMaze m) \<and> count_type TARGET (cells (generateNewMaze m)) = 1"
    unfolding generateNewMaze_def by (intro conjI fresh_maze_tags)
  have c: "tags_ok m \<longrightarrow> tags_ok (reset m) \<and> count_type TARGET (cells (reset m)) = 1"
  proof
    assume t: "tags_ok m"
    then have "\<And>p. isValidPosition p \<Longrightarrow> type (cells m p) = TARGET \<Longrightarrow>
        p = (MAZE_WIDTH - 2, MAZE_HEIGHT - 2)"
      unfolding tags_ok_def by metis
    from reset_tags [OF this] show "tags_ok (reset m) \<and> count_type TARGET (cells (reset m)) = 1"
      by blast
  qed
  from a have a': "count_type PLAYER (cells (new_Maze r)) = 1"
    by (intro count_player) simp
  from a a' b c count_player [of m] count_target_le [of m] movePlayer_tags [of m dx dy]
    findPathBFS_tags [of m] prepareAutoMove_tags [of m] autoMoveStep_tags [of m]
  show ?thesis by blast
qed

text \<open>The example state, where a step to the right keeps both tags.\<close>

theorem tag_counts_witness:
  "tags_ok example_maze \<and> count_type PLAYER (cells example_maze) = 1 \<and>
   count_type TARGET (cells example_maze) = 1 \<and>
   tags_ok (reset example_maze) \<and> count_type TARGET (cells (reset example_maze)) = 1 \<and>
   tags_ok (snd (movePlayer 1 0 example_maze)) \<and>
   playerPos (snd (movePlayer 1 0 example_maze)) \<noteq> targetPos example_maze \<and>
   count_type TARGET (cells (snd (movePlayer 1 0 example_maze))) = 1 \<and>
   (\<exists>m'. findPathBFS example_maze = Some m' \<and> tags_ok m') \<and>
   (\<exists>m'. prepareAutoMove example_maze = Some m' \<and> tags_ok m') \<and>
   (\<exists>b m'. autoMoveStep example_maze = Some (b, m') \<and> tags_ok m')"
proof -
  note t = tag_counts [of "\<lambda>k. 0" example_maze 1 0]
  have c: "count_type TARGET (cells example_maze) = 1" by code_simp
  have p: "playerPos (snd (movePlayer 1 0 example_maze)) \<noteq> targetPos example_maze"
    by code_simp
  obtain m1 where m1: "findPathBFS example_maze = Some m1" using findPathBFS_total by blast
  have m2: "autoMoveStep example_maze = Some (False, example_maze\<lparr>autoMoving := False\<rparr>)"
    by (simp add: autoMoveStep_def example_maze_def)
  from t example_tags c p m1 example_prepare m2 show ?thesis by auto
qed

text \<open>
  The claim as it is written fails for the TARGET tag: the player's arrival on the
  target overwrites it with PLAYER. From the example state, with one PLAYER and one
  TARGET cell, two steps to the right, or the two steps of the animation, leave no cell
  tagged TARGET.
\<close>

theorem target_tag_lost_counterexample:
  "count_type PLAYER (cells example_maze) = 1 \<and> count_type TARGET (cells example_maze) = 1 \<and>
   fst (movePlayer 1 0 example_maze) \<and> fst (movePlayer 1 0 (snd (movePlayer 1 0 example_maze))) \<and>
   count_type PLAYER (cells arrived_maze) = 1 \<and> count_type TARGET (cells arrived_maze) = 0 \<and>
   map_option fst (autoMoveSteps 2 animating_maze) = Some [True, True] \<and>
   count_type TARGET (cells (snd (the (autoMoveSteps 2 animating_maze)))) = 0"
  unfolding arrived_maze_def animating_maze_def by code_simp

end
